theory Spec2Isabelle
  imports Main "HOL-Library.Word"
begin

unbundle bit_operations_syntax

section \<open>Homomorphic authentication: a shallow embedding of the Go sources\<close>

text \<open>
  The development follows the repository file by file: \<^verbatim>\<open>crypto/bytestream.go\<close>,
  \<^verbatim>\<open>crypto/publickey.go\<close>, \<^verbatim>\<open>crypto/packet.go\<close>, the server and the client.
  Go slices are lists (a nil slice and an empty slice are both the empty list), a Go
  \<^verbatim>\<open>byte\<close> is an 8-bit word, a Go \<^verbatim>\<open>int\<close> holding a length or a single bit is an
  \<^typ>\<open>int\<close>, and every run-time panic of the source is the value \<open>Inl (Panic msg)\<close>.
  A pointer to a struct is modelled by the struct it points to, except for the two
  pointers that are nil in states the sources reach: a unit of a ciphertext (a freshly
  made slice holds nil units, and so does a decoded JSON \<^verbatim>\<open>null\<close>), and the private key
  of a packet made from a public key alone. The client is
  \<^verbatim>\<open>src/unnamed/part_000\<close>, the server \<^verbatim>\<open>src/unnamed/part_001\<close>. The method \<^verbatim>\<open>Packet.Not\<close>
  is \<open>Not_op\<close> here, \<open>Not\<close> being the negation of HOL.
\<close>

type_synonym byte = "8 word"

datatype error = Panic string

type_synonym 'a result = "error + 'a"

subsection \<open>The external libraries\<close>

text \<open>
  The Go standard library (\<^verbatim>\<open>hash/fnv\<close>, \<^verbatim>\<open>crypto/aes\<close>, \<^verbatim>\<open>crypto/cipher\<close>) is not part
  of the repository. Its operations are the fields of a record that every definition
  using them takes as its first argument:
  \<^item> \<open>fnv128_Sum data\<close>: the digest \<^verbatim>\<open>h.Sum(nil)\<close> of \<^verbatim>\<open>h := fnv.New128(); h.Write(data)\<close>;
  \<^item> \<open>fnv64_Sum data\<close>: \<^verbatim>\<open>h := fnv.New64(); h.Write(data)\<close>, \<open>Inl\<close> the error of
    \<^verbatim>\<open>Write\<close>, \<open>Inr\<close> the digest \<^verbatim>\<open>h.Sum(nil)\<close>;
  \<^item> \<open>aes_NewCipher key\<close>: \<open>Inl\<close> the error, \<open>Inr\<close> the block cipher;
  \<^item> \<open>cipher_NewCTR block iv\<close>: \<open>Inl\<close> the panic message, \<open>Inr\<close> the stream;
  \<^item> \<open>stream_next st\<close>: the next byte of the stream's key stream and the advanced stream.
\<close>

record ('blk, 'st) stdlib =
  fnv128_Sum :: "byte list \<Rightarrow> byte list"
  fnv64_Sum :: "byte list \<Rightarrow> string + byte list"
  aes_NewCipher :: "byte list \<Rightarrow> string + 'blk"
  cipher_NewCTR :: "'blk \<Rightarrow> byte list \<Rightarrow> string + 'st"
  stream_next :: "'st \<Rightarrow> byte \<times> 'st"

text \<open>
  A \<^verbatim>\<open>*core.LweSample\<close> is one encrypted bit, opaque here: either nil or a sample of the
  backend's type \<open>'u\<close>. A \<^verbatim>\<open>gates.Ctxt\<close> is a slice of such pointers.
\<close>

datatype 'u lwe_ptr = NilSample | Sample 'u

type_synonym 'u Ctxt = "'u lwe_ptr list"

text \<open>
  The go-tfhe backend: the two methods of \<^verbatim>\<open>*gates.PrivateKey\<close> and the six gates of
  \<^verbatim>\<open>*gates.PublicKey\<close> that the repository calls. In Go each of them takes and returns
  pointers to samples. It reads the samples its arguments point to, so it panics on a nil
  argument, and what it returns is a freshly allocated sample, never nil. The record
  holds what each computes on samples, each a function of its arguments; \<open>decrypt_unit\<close>,
  \<open>unary_gate\<close> and \<open>binary_gate\<close> are the calls on pointers, with the panic on nil.
\<close>

record ('pub, 'prv, 'u) backend =
  BootsSymEncrypt :: "'prv \<Rightarrow> int \<Rightarrow> 'u"
  BootsSymDecrypt :: "'prv \<Rightarrow> 'u \<Rightarrow> int"
  pk_And :: "'pub \<Rightarrow> 'u \<Rightarrow> 'u \<Rightarrow> 'u"
  pk_Or :: "'pub \<Rightarrow> 'u \<Rightarrow> 'u \<Rightarrow> 'u"
  pk_Xor :: "'pub \<Rightarrow> 'u \<Rightarrow> 'u \<Rightarrow> 'u"
  pk_Xnor :: "'pub \<Rightarrow> 'u \<Rightarrow> 'u \<Rightarrow> 'u"
  pk_Not :: "'pub \<Rightarrow> 'u \<Rightarrow> 'u"
  pk_Copy :: "'pub \<Rightarrow> 'u \<Rightarrow> 'u"

definition nil_dereference :: error where
  "nil_dereference = Panic ''invalid memory address or nil pointer dereference''"

definition decrypt_unit :: "('pub, 'prv, 'u) backend \<Rightarrow> 'prv \<Rightarrow> 'u lwe_ptr \<Rightarrow> int result" where
  "decrypt_unit be key a =
     (case a of NilSample \<Rightarrow> Inl nil_dereference | Sample u \<Rightarrow> Inr (BootsSymDecrypt be key u))"

definition unary_gate :: "('pub \<Rightarrow> 'u \<Rightarrow> 'u) \<Rightarrow> 'pub \<Rightarrow> 'u lwe_ptr \<Rightarrow> 'u lwe_ptr result" where
  "unary_gate g pk a =
     (case a of NilSample \<Rightarrow> Inl nil_dereference | Sample u \<Rightarrow> Inr (Sample (g pk u)))"

definition binary_gate ::
  "('pub \<Rightarrow> 'u \<Rightarrow> 'u \<Rightarrow> 'u) \<Rightarrow> 'pub \<Rightarrow> 'u lwe_ptr \<Rightarrow> 'u lwe_ptr \<Rightarrow> 'u lwe_ptr result" where
  "binary_gate g pk a b =
     (case a of
        NilSample \<Rightarrow> Inl nil_dereference
      | Sample u \<Rightarrow>
          (case b of NilSample \<Rightarrow> Inl nil_dereference | Sample v \<Rightarrow> Inr (Sample (g pk u v))))"

subsection \<open>crypto/bytestream.go\<close>

text \<open>\<^verbatim>\<open>cipher.Stream.XORKeyStream(dst, src)\<close>: every byte of \<open>src\<close> XORed with the next
  byte of the key stream.\<close>

fun XORKeyStream :: "('blk, 'st) stdlib \<Rightarrow> 'st \<Rightarrow> byte list \<Rightarrow> byte list \<times> 'st" where
  "XORKeyStream lib st [] = ([], st)"
| "XORKeyStream lib st (x # xs) =
     (case stream_next lib st of (k, st1) \<Rightarrow>
        (case XORKeyStream lib st1 xs of (ys, st2) \<Rightarrow> ((x XOR k) # ys, st2)))"

text \<open>A \<^verbatim>\<open>ByteStream\<close> holds the cipher stream.\<close>

record 'st ByteStream =
  stream :: 'st

definition MakeByteStream :: "('blk, 'st) stdlib \<Rightarrow> byte list \<Rightarrow> 'st ByteStream result" where
  "MakeByteStream lib key =
     (let seed1 = fnv128_Sum lib (key @ [0]);
          seed2 = fnv128_Sum lib (key @ [1])
      in case aes_NewCipher lib seed1 of
           Inl err \<Rightarrow> Inl (Panic err)
         | Inr block \<Rightarrow>
             (case cipher_NewCTR lib block seed2 of
                Inl err \<Rightarrow> Inl (Panic err)
              | Inr s \<Rightarrow> Inr \<lparr>stream = s\<rparr>))"

text \<open>\<^verbatim>\<open>binary.LittleEndian.AppendUint64(nil, v)\<close>: the eight bytes of \<open>v\<close>, lowest first.\<close>

definition AppendUint64 :: "64 word \<Rightarrow> byte list" where
  "AppendUint64 v = map (\<lambda>i. ucast (drop_bit (8 * i) v)) [0..<8]"

text \<open>\<open>MakeRandByteStream\<close>, given the value that \<^verbatim>\<open>rand.Uint64()\<close> returned.\<close>

definition MakeRandByteStream :: "('blk, 'st) stdlib \<Rightarrow> 64 word \<Rightarrow> 'st ByteStream result" where
  "MakeRandByteStream lib r = MakeByteStream lib (AppendUint64 r)"

text \<open>\<open>NextBytes\<close> returns the bytes and the advanced stream; \<^verbatim>\<open>make([]byte, n)\<close>
  panics for a negative \<open>n\<close>.\<close>

definition NextBytes ::
  "('blk, 'st) stdlib \<Rightarrow> 'st ByteStream \<Rightarrow> int \<Rightarrow> (byte list \<times> 'st ByteStream) result" where
  "NextBytes lib cbs n =
     (if n < 0 then Inl (Panic ''makeslice: len out of range'')
      else (case XORKeyStream lib (stream cbs) (replicate (nat n) 0) of
              (v, s) \<Rightarrow> Inr (v, cbs\<lparr>stream := s\<rparr>)))"

definition NextByte ::
  "('blk, 'st) stdlib \<Rightarrow> 'st ByteStream \<Rightarrow> (byte \<times> 'st ByteStream) result" where
  "NextByte lib cbs =
     (case NextBytes lib cbs 1 of
        Inl e \<Rightarrow> Inl e
      | Inr (v, cbs1) \<Rightarrow>
          (case v of [] \<Rightarrow> Inl (Panic ''index out of range'') | x # _ \<Rightarrow> Inr (x, cbs1)))"

text \<open>A sequence of calls on one stream, as a client of the generator issues them.\<close>

datatype call = CallNextBytes int | CallNextByte

fun run_calls ::
  "('blk, 'st) stdlib \<Rightarrow> 'st ByteStream \<Rightarrow> call list \<Rightarrow> (byte list list \<times> 'st ByteStream) result" where
  "run_calls lib cbs [] = Inr ([], cbs)"
| "run_calls lib cbs (CallNextBytes n # cs) =
     (case NextBytes lib cbs n of
        Inl e \<Rightarrow> Inl e
      | Inr (v, cbs1) \<Rightarrow>
          (case run_calls lib cbs1 cs of Inl e \<Rightarrow> Inl e | Inr (vs, cbs2) \<Rightarrow> Inr (v # vs, cbs2)))"
| "run_calls lib cbs (CallNextByte # cs) =
     (case NextByte lib cbs of
        Inl e \<Rightarrow> Inl e
      | Inr (x, cbs1) \<Rightarrow>
          (case run_calls lib cbs1 cs of Inl e \<Rightarrow> Inl e | Inr (vs, cbs2) \<Rightarrow> Inr ([x] # vs, cbs2)))"

text \<open>Two runs of the generator: a stream is made from each key and the same calls are
  issued on both.\<close>

definition keystream_run ::
  "('blk, 'st) stdlib \<Rightarrow> byte list \<Rightarrow> call list \<Rightarrow> byte list list result" where
  "keystream_run lib key cs =
     (case MakeByteStream lib key of
        Inl e \<Rightarrow> Inl e
      | Inr cbs \<Rightarrow> (case run_calls lib cbs cs of Inl e \<Rightarrow> Inl e | Inr (vs, _) \<Rightarrow> Inr vs))"

subsection \<open>crypto/publickey.go\<close>

text \<open>
  The go-tfhe structs that \<^verbatim>\<open>publickey.go\<close> reads and builds, with the fields it names.
  A \<^verbatim>\<open>float64\<close> is copied, never computed with, so it is its 64-bit pattern, and a
  \<^verbatim>\<open>complex128\<close> is the pair of its real and imaginary part. The parameter structs
  (\<^verbatim>\<open>core.LweParams\<close>, \<^verbatim>\<open>core.TGswParams\<close>, \<^verbatim>\<open>core.TLweParams\<close>,
  \<^verbatim>\<open>core.LweKeySwitchKey\<close>, \<^verbatim>\<open>gates.GateBootstrappingParameterSet\<close>) are only passed
  on: they are the type variables \<open>'lp\<close>, \<open>'gp\<close>, \<open>'tp\<close>, \<open>'ks\<close> and \<open>'ps\<close>. Whatever else
  a \<^verbatim>\<open>core.LweBootstrappingKey\<close> holds besides the five fields read here is \<open>LweBk_rest\<close>.
\<close>

type_synonym float64 = "64 word"
type_synonym complex128 = "float64 \<times> float64"
type_synonym int32 = "32 word"

record LagrangeHalfCPolynomial =
  Lagrange_Coefs :: "complex128 list"

record TLweSampleFFT =
  TLwe_A :: "LagrangeHalfCPolynomial list"
  TLwe_CurrentVariance :: float64
  TLwe_K :: int32

record TGswSampleFFT =
  TGsw_AllSample :: "TLweSampleFFT list"
  TGsw_BlocSample :: "TLweSampleFFT list list"
  TGsw_K :: int32
  TGsw_L :: int32

record ('lp, 'gp, 'tp, 'ks) LweBootstrappingKeyFFT =
  LweBkFFT_InOutParams :: 'lp
  LweBkFFT_BkParams :: 'gp
  LweBkFFT_AccumParams :: 'tp
  LweBkFFT_ExtractParams :: 'lp
  LweBkFFT_Bk :: "TGswSampleFFT list"
  LweBkFFT_Ks :: 'ks

record ('lp, 'gp, 'tp, 'ks, 'r) LweBootstrappingKey =
  LweBk_InOutParams :: 'lp
  LweBk_BkParams :: 'gp
  LweBk_AccumParams :: 'tp
  LweBk_ExtractParams :: 'lp
  LweBk_Ks :: 'ks
  LweBk_rest :: 'r

record ('lp, 'gp, 'tp, 'ks, 'r) LweBootstrappingKeyWrapper =
  LweBkw_Bk :: "('lp, 'gp, 'tp, 'ks, 'r) LweBootstrappingKey"
  LweBkw_BkFFT :: "('lp, 'gp, 'tp, 'ks) LweBootstrappingKeyFFT"

record ('lp, 'gp, 'tp, 'ks, 'r, 'ps) gates_PublicKey =
  gates_Params :: 'ps
  gates_Bkw :: "('lp, 'gp, 'tp, 'ks, 'r) LweBootstrappingKeyWrapper"

text \<open>The JSON-marshallable types that \<^verbatim>\<open>publickey.go\<close> declares, under the names it
  gives them.\<close>

record lagrangeHalfCPolynomial =
  lagrange_Coefs :: "complex128 list"

record tLweSampleFFT =
  tLwe_A :: "lagrangeHalfCPolynomial list"
  tLwe_CurrentVariance :: float64
  tLwe_K :: int32

record tGswSampleFFT =
  tGsw_AllSample :: "tLweSampleFFT list"
  tGsw_BlocSample :: "tLweSampleFFT list list"
  tGsw_K :: int32
  tGsw_L :: int32

record ('lp, 'gp, 'tp, 'ks) lweBootstrappingKeyFFT =
  lweBkFFT_InOutParams :: 'lp
  lweBkFFT_BkParams :: 'gp
  lweBkFFT_AccumParams :: 'tp
  lweBkFFT_ExtractParams :: 'lp
  lweBkFFT_Bk :: "tGswSampleFFT list"
  lweBkFFT_Ks :: 'ks

record ('lp, 'gp, 'tp, 'ks, 'r) lweBootstrappingKeyWrapper =
  lweBkw_Bk :: "('lp, 'gp, 'tp, 'ks, 'r) LweBootstrappingKey"
  lweBkw_BkFFT :: "('lp, 'gp, 'tp, 'ks) lweBootstrappingKeyFFT"

record ('lp, 'gp, 'tp, 'ks, 'r, 'ps) PublicKey =
  Params :: 'ps
  Bkw :: "('lp, 'gp, 'tp, 'ks, 'r) lweBootstrappingKeyWrapper"

text \<open>
  \<open>MakePublicKey\<close>. Each \<^verbatim>\<open>for i, v := range xs\<close> loop of the source writes slot \<open>i\<close> of
  a fresh slice of the same length from \<open>v\<close> alone, which is \<open>map\<close>. The three nested
  conversions are named after the struct they build.
\<close>

definition make_lagrangeHalfCPolynomial :: "LagrangeHalfCPolynomial \<Rightarrow> lagrangeHalfCPolynomial" where
  "make_lagrangeHalfCPolynomial x = \<lparr>lagrange_Coefs = Lagrange_Coefs x\<rparr>"

definition make_tLweSampleFFT :: "TLweSampleFFT \<Rightarrow> tLweSampleFFT" where
  "make_tLweSampleFFT w =
     \<lparr>tLwe_A = map make_lagrangeHalfCPolynomial (TLwe_A w),
      tLwe_CurrentVariance = TLwe_CurrentVariance w,
      tLwe_K = TLwe_K w\<rparr>"

definition make_tGswSampleFFT :: "TGswSampleFFT \<Rightarrow> tGswSampleFFT" where
  "make_tGswSampleFFT v =
     \<lparr>tGsw_AllSample = map make_tLweSampleFFT (TGsw_AllSample v),
      tGsw_BlocSample = map (map make_tLweSampleFFT) (TGsw_BlocSample v),
      tGsw_K = TGsw_K v,
      tGsw_L = TGsw_L v\<rparr>"

definition MakePublicKey ::
  "('lp, 'gp, 'tp, 'ks, 'r, 'ps) gates_PublicKey \<Rightarrow> ('lp, 'gp, 'tp, 'ks, 'r, 'ps) PublicKey" where
  "MakePublicKey pk =
     (let Bk = map make_tGswSampleFFT (LweBkFFT_Bk (LweBkw_BkFFT (gates_Bkw pk)));
          BkFFT = \<lparr>lweBkFFT_InOutParams = LweBk_InOutParams (LweBkw_Bk (gates_Bkw pk)),
                   lweBkFFT_BkParams = LweBk_BkParams (LweBkw_Bk (gates_Bkw pk)),
                   lweBkFFT_AccumParams = LweBk_AccumParams (LweBkw_Bk (gates_Bkw pk)),
                   lweBkFFT_ExtractParams = LweBk_ExtractParams (LweBkw_Bk (gates_Bkw pk)),
                   lweBkFFT_Bk = Bk,
                   lweBkFFT_Ks = LweBk_Ks (LweBkw_Bk (gates_Bkw pk))\<rparr>;
          Bkw' = \<lparr>lweBkw_Bk = LweBkw_Bk (gates_Bkw pk), lweBkw_BkFFT = BkFFT\<rparr>
      in \<lparr>Params = gates_Params pk, Bkw = Bkw'\<rparr>)"

text \<open>\<open>fromPublicKey\<close>, the same way back.\<close>

definition from_lagrangeHalfCPolynomial :: "lagrangeHalfCPolynomial \<Rightarrow> LagrangeHalfCPolynomial" where
  "from_lagrangeHalfCPolynomial x = \<lparr>Lagrange_Coefs = lagrange_Coefs x\<rparr>"

definition from_tLweSampleFFT :: "tLweSampleFFT \<Rightarrow> TLweSampleFFT" where
  "from_tLweSampleFFT w =
     \<lparr>TLwe_A = map from_lagrangeHalfCPolynomial (tLwe_A w),
      TLwe_CurrentVariance = tLwe_CurrentVariance w,
      TLwe_K = tLwe_K w\<rparr>"

definition from_tGswSampleFFT :: "tGswSampleFFT \<Rightarrow> TGswSampleFFT" where
  "from_tGswSampleFFT v =
     \<lparr>TGsw_AllSample = map from_tLweSampleFFT (tGsw_AllSample v),
      TGsw_BlocSample = map (map from_tLweSampleFFT) (tGsw_BlocSample v),
      TGsw_K = tGsw_K v,
      TGsw_L = tGsw_L v\<rparr>"

definition fromPublicKey ::
  "('lp, 'gp, 'tp, 'ks, 'r, 'ps) PublicKey \<Rightarrow> ('lp, 'gp, 'tp, 'ks, 'r, 'ps) gates_PublicKey" where
  "fromPublicKey pk =
     (let Bk = map from_tGswSampleFFT (lweBkFFT_Bk (lweBkw_BkFFT (Bkw pk)));
          BkFFT = \<lparr>LweBkFFT_InOutParams = LweBk_InOutParams (lweBkw_Bk (Bkw pk)),
                   LweBkFFT_BkParams = LweBk_BkParams (lweBkw_Bk (Bkw pk)),
                   LweBkFFT_AccumParams = LweBk_AccumParams (lweBkw_Bk (Bkw pk)),
                   LweBkFFT_ExtractParams = LweBk_ExtractParams (lweBkw_Bk (Bkw pk)),
                   LweBkFFT_Bk = Bk,
                   LweBkFFT_Ks = LweBk_Ks (lweBkw_Bk (Bkw pk))\<rparr>;
          Bkw' = \<lparr>LweBkw_Bk = lweBkw_Bk (Bkw pk), LweBkw_BkFFT = BkFFT\<rparr>
      in \<lparr>gates_Params = Params pk, gates_Bkw = Bkw'\<rparr>)"

text \<open>The parameter fields of the FFT bootstrapping key repeat those of the
  bootstrapping key it was computed from.\<close>

definition bkFFT_agrees :: "('lp, 'gp, 'tp, 'ks, 'r, 'ps) gates_PublicKey \<Rightarrow> bool" where
  "bkFFT_agrees pk \<longleftrightarrow>
     LweBkFFT_InOutParams (LweBkw_BkFFT (gates_Bkw pk)) = LweBk_InOutParams (LweBkw_Bk (gates_Bkw pk)) \<and>
     LweBkFFT_BkParams (LweBkw_BkFFT (gates_Bkw pk)) = LweBk_BkParams (LweBkw_Bk (gates_Bkw pk)) \<and>
     LweBkFFT_AccumParams (LweBkw_BkFFT (gates_Bkw pk)) = LweBk_AccumParams (LweBkw_Bk (gates_Bkw pk)) \<and>
     LweBkFFT_ExtractParams (LweBkw_BkFFT (gates_Bkw pk)) = LweBk_ExtractParams (LweBkw_Bk (gates_Bkw pk)) \<and>
     LweBkFFT_Ks (LweBkw_BkFFT (gates_Bkw pk)) = LweBk_Ks (LweBkw_Bk (gates_Bkw pk))"

subsection \<open>crypto/packet.go\<close>

text \<open>A \<open>Packet\<close> holds a public key and, when it is the client's own, a private key;
  \<open>MakePublicPacket\<close> leaves \<open>prv\<close> nil.\<close>

record ('pub, 'prv) Packet =
  pub :: 'pub
  prv :: "'prv option"

definition MakePublicPacket ::
  "('lp, 'gp, 'tp, 'ks, 'r, 'ps) PublicKey \<Rightarrow>
   (('lp, 'gp, 'tp, 'ks, 'r, 'ps) gates_PublicKey, 'prv) Packet" where
  "MakePublicPacket publicKey = \<lparr>pub = fromPublicKey publicKey, prv = None\<rparr>"

definition Pub :: "('pub, 'prv) Packet \<Rightarrow> 'pub" where
  "Pub p = pub p"

definition Prv :: "('pub, 'prv) Packet \<Rightarrow> 'prv option" where
  "Prv p = prv p"

text \<open>
  \<open>Encrypt\<close>. The loop state is the slice \<open>ctxt\<close> and the index \<open>i\<close>; \<open>Encrypt_bit\<close> is the
  body of the inner loop for bit \<open>j\<close> of byte \<open>b\<close>: \<^verbatim>\<open>ctxt[i] = p.prv.BootsSymEncrypt(int(b>>j) & 0x1); i++\<close>.
\<close>

definition Encrypt_bit ::
  "('pub, 'prv, 'u) backend \<Rightarrow> ('pub, 'prv) Packet \<Rightarrow> byte \<Rightarrow> nat \<Rightarrow>
   ('u Ctxt \<times> nat) result \<Rightarrow> ('u Ctxt \<times> nat) result" where
  "Encrypt_bit be p b j st =
     (case st of
        Inl e \<Rightarrow> Inl e
      | Inr (ctxt, i) \<Rightarrow>
          (case prv p of
             None \<Rightarrow> Inl nil_dereference
           | Some key \<Rightarrow>
               if i < length ctxt
               then Inr (ctxt[i := Sample (BootsSymEncrypt be key (uint (drop_bit j b) AND 1))], i + 1)
               else Inl (Panic ''index out of range'')))"

definition Encrypt ::
  "('pub, 'prv, 'u) backend \<Rightarrow> ('pub, 'prv) Packet \<Rightarrow> byte list \<Rightarrow> 'u Ctxt result" where
  "Encrypt be p payload =
     (case fold (\<lambda>b st. fold (Encrypt_bit be p b) [0..<8] st) payload
             (Inr (replicate (8 * length payload) NilSample, 0)) of
        Inl e \<Rightarrow> Inl e
      | Inr (ctxt, i) \<Rightarrow> Inr ctxt)"

text \<open>
  \<open>Decrypt\<close>. \<open>Decrypt_loop\<close> is the pair of nested loops with the counters \<open>i\<close>, \<open>j\<close>, \<open>k\<close>
  of the source; the only way out without a panic is the \<^verbatim>\<open>return result\<close> inside.
  \<open>dec\<close> is the call \<^verbatim>\<open>p.prv.BootsSymDecrypt\<close> on a unit, which panics on a nil unit;
  \<^verbatim>\<open>byte(x)\<close> keeps the low eight bits of \<open>x\<close>.
\<close>

function Decrypt_loop ::
  "('u lwe_ptr \<Rightarrow> int result) \<Rightarrow> 'u Ctxt \<Rightarrow> nat \<Rightarrow> nat \<Rightarrow> nat \<Rightarrow> byte list \<Rightarrow> byte list result" where
  "Decrypt_loop dec encryptedPayload i j k res =
     (if k < 8 then
        (if j < length res \<and> i < length encryptedPayload then
           (case dec (encryptedPayload ! i) of
              Inl err \<Rightarrow> Inl err
            | Inr x \<Rightarrow>
                (let res' = res[j := drop_bit 1 (res ! j) OR push_bit 7 (word_of_int x)]
                 in if i + 1 \<ge> length encryptedPayload then Inr res'
                    else Decrypt_loop dec encryptedPayload (i + 1) j (k + 1) res'))
         else Inl (Panic ''index out of range''))
      else Decrypt_loop dec encryptedPayload i (j + 1) 0 res)"
  by pat_completeness auto
termination
  by (relation "measure (\<lambda>(dec, e, i, j, k, res). 2 * (length e - i) + (if k < 8 then 0 else 1))") auto

definition Decrypt ::
  "('pub, 'prv, 'u) backend \<Rightarrow> ('pub, 'prv) Packet \<Rightarrow> 'u Ctxt \<Rightarrow> byte list result" where
  "Decrypt be p encryptedPayload =
     (let res = replicate ((length encryptedPayload + 7) div 8) (0 :: byte)
      in if length res = 0 then Inr []
         else (case prv p of
                 None \<Rightarrow> Inl nil_dereference
               | Some key \<Rightarrow> Decrypt_loop (decrypt_unit be key) encryptedPayload 0 0 0 res))"

text \<open>
  \<open>ParallelUnary\<close> and \<open>ParallelBinary\<close>. Every goroutine writes the one slot \<open>i\<close> of
  \<open>result\<close> that no other goroutine touches, from \<open>a[i]\<close> (and \<open>b[i]\<close>) alone, and the
  caller waits for all of them: when none panics, the slice returned is the one a
  sequential loop over the indices of \<open>a\<close> returns. A panic in a goroutine ends the
  process, so the call returns nothing: \<open>wait_all\<close> gives the first panic in index order.
  \<open>operation\<close> is the call of a gate on pointers.
\<close>

fun wait_all :: "'a result list \<Rightarrow> 'a list result" where
  "wait_all [] = Inr []"
| "wait_all (r # rs) =
     (case r of
        Inl e \<Rightarrow> Inl e
      | Inr x \<Rightarrow> (case wait_all rs of Inl e \<Rightarrow> Inl e | Inr xs \<Rightarrow> Inr (x # xs)))"

definition ParallelUnary ::
  "('pub \<Rightarrow> 'u lwe_ptr \<Rightarrow> 'u lwe_ptr result) \<Rightarrow> ('pub, 'prv) Packet \<Rightarrow> 'u Ctxt \<Rightarrow> 'u Ctxt result" where
  "ParallelUnary operation p a = wait_all (map (\<lambda>i. operation (pub p) (a ! i)) [0..<length a])"

definition ParallelBinary ::
  "('pub \<Rightarrow> 'u lwe_ptr \<Rightarrow> 'u lwe_ptr \<Rightarrow> 'u lwe_ptr result) \<Rightarrow> ('pub, 'prv) Packet \<Rightarrow>
   'u Ctxt \<Rightarrow> 'u Ctxt \<Rightarrow> 'u Ctxt result" where
  "ParallelBinary operation p a b =
     (if length a \<noteq> length b then Inl (Panic ''expected equal bit size'')
      else wait_all (map (\<lambda>i. operation (pub p) (a ! i) (b ! i)) [0..<length a]))"

definition And ::
  "('pub, 'prv, 'u) backend \<Rightarrow> ('pub, 'prv) Packet \<Rightarrow> 'u Ctxt \<Rightarrow> 'u Ctxt \<Rightarrow> 'u Ctxt result" where
  "And be p a b = ParallelBinary (binary_gate (pk_And be)) p a b"

definition Or ::
  "('pub, 'prv, 'u) backend \<Rightarrow> ('pub, 'prv) Packet \<Rightarrow> 'u Ctxt \<Rightarrow> 'u Ctxt \<Rightarrow> 'u Ctxt result" where
  "Or be p a b = ParallelBinary (binary_gate (pk_Or be)) p a b"

definition Xor ::
  "('pub, 'prv, 'u) backend \<Rightarrow> ('pub, 'prv) Packet \<Rightarrow> 'u Ctxt \<Rightarrow> 'u Ctxt \<Rightarrow> 'u Ctxt result" where
  "Xor be p a b = ParallelBinary (binary_gate (pk_Xor be)) p a b"

definition XNor ::
  "('pub, 'prv, 'u) backend \<Rightarrow> ('pub, 'prv) Packet \<Rightarrow> 'u Ctxt \<Rightarrow> 'u Ctxt \<Rightarrow> 'u Ctxt result" where
  "XNor be p a b = ParallelBinary (binary_gate (pk_Xnor be)) p a b"

definition Not_op ::
  "('pub, 'prv, 'u) backend \<Rightarrow> ('pub, 'prv) Packet \<Rightarrow> 'u Ctxt \<Rightarrow> 'u Ctxt result" where
  "Not_op be p a = ParallelUnary (unary_gate (pk_Not be)) p a"

definition Copy ::
  "('pub, 'prv, 'u) backend \<Rightarrow> ('pub, 'prv) Packet \<Rightarrow> 'u Ctxt \<Rightarrow> 'u Ctxt result" where
  "Copy be p a = ParallelUnary (unary_gate (pk_Copy be)) p a"

subsection \<open>The wire types of client and server\<close>

record 'u SignUpRequest =
  SignUpRequest_Username :: string
  SignUpRequest_EncryptedSecret :: "'u Ctxt"
  SignUpRequest_Secret :: "byte list"

record ('lp, 'gp, 'tp, 'ks, 'r, 'ps) FirstLogInRequest =
  FirstLogInRequest_Username :: string
  FirstLogInRequest_PublicKey :: "('lp, 'gp, 'tp, 'ks, 'r, 'ps) PublicKey"

record SecondLogInRequest =
  SecondLogInRequest_Username :: string
  SecondLogInRequest_Secret :: "byte list"

record 'u FirstLogInResponse =
  EncryptedMutatedSecret :: "'u Ctxt"

subsection \<open>The server\<close>

definition errUserExists :: string where
  "errUserExists = ''user already exists''"

definition errUserDoesNotExist :: string where
  "errUserDoesNotExist = ''user doesn't exist''"

definition errInvalidCredentials :: string where
  "errInvalidCredentials = ''invalid credentials''"

text \<open>The status codes of \<^verbatim>\<open>net/http\<close> that the handlers use.\<close>

definition StatusOK :: nat where
  "StatusOK = 200"

definition StatusBadRequest :: nat where
  "StatusBadRequest = 400"

definition StatusForbidden :: nat where
  "StatusForbidden = 403"

definition StatusInternalServerError :: nat where
  "StatusInternalServerError = 500"

text \<open>What a handler writes: \<^verbatim>\<open>http.Error(w, msg, code)\<close>, or \<^verbatim>\<open>w.WriteHeader(code)\<close>
  followed by the body it encodes, if any.\<close>

datatype 'b response = HttpError string nat | WriteHeader nat 'b

fun statusCode :: "'b response \<Rightarrow> nat" where
  "statusCode (HttpError msg code) = code"
| "statusCode (WriteHeader code body) = code"

record 'u User =
  User_Username :: string
  User_EncryptedSecret :: "'u Ctxt"
  User_SecretHash :: "byte list"
  User_Salt :: "byte list"

text \<open>The server's state. The mutex is held around each single read and each single
  write of \<open>userDatabase\<close>; requests are handled one after another here.\<close>

record 'u Server =
  saltByteLen :: int
  port :: "16 word"
  userDatabase :: "string \<rightharpoonup> 'u User"

definition NewServer :: "int \<Rightarrow> 16 word \<Rightarrow> 'u Server" where
  "NewServer n prt = \<lparr>saltByteLen = n, port = prt, userDatabase = Map.empty\<rparr>"

text \<open>
  \<open>makeEncryptedMutation\<close>, given the value \<open>r\<close> that \<^verbatim>\<open>rand.Uint64()\<close> returned to
  \<open>MakeRandByteStream\<close>. \<open>mutation_step\<close> is the loop body for index \<open>i\<close>; the loop state
  is \<open>randomPayload\<close> and the byte stream. \<open>f\<close> is the identity, which hands a nil unit
  on, or the gate \<^verbatim>\<open>packet.Pub().Not\<close>, which panics on it; the body calls \<open>f\<close> twice.
\<close>

definition mutation_step ::
  "('blk, 'st) stdlib \<Rightarrow> ('pub, 'prv, 'u) backend \<Rightarrow> ('pub, 'prv) Packet \<Rightarrow> 'u Ctxt \<Rightarrow> nat \<Rightarrow>
   ('u Ctxt \<times> 'st ByteStream) result \<Rightarrow> ('u Ctxt \<times> 'st ByteStream) result" where
  "mutation_step lib be packet encryptedPayload i st =
     (case st of
        Inl e \<Rightarrow> Inl e
      | Inr (randomPayload, randByteStream) \<Rightarrow>
          (case NextByte lib randByteStream of
             Inl e \<Rightarrow> Inl e
           | Inr (c, randByteStream1) \<Rightarrow>
               (let f = (if c mod 2 = 0 then unary_gate (pk_Not be) (Pub packet) else (\<lambda>a. Inr a));
                    h = length encryptedPayload div 2
                in if 0 < length encryptedPayload \<and> i < length randomPayload \<and> i + h < length randomPayload
                   then (case f (encryptedPayload ! 0) of
                           Inl err \<Rightarrow> Inl err
                         | Inr x \<Rightarrow>
                             (case f (encryptedPayload ! 0) of
                                Inl err \<Rightarrow> Inl err
                              | Inr y \<Rightarrow> Inr (randomPayload[i := x, i + h := y], randByteStream1)))
                   else Inl (Panic ''index out of range''))))"

definition makeEncryptedMutation ::
  "('blk, 'st) stdlib \<Rightarrow> ('pub, 'prv, 'u) backend \<Rightarrow> 64 word \<Rightarrow> ('pub, 'prv) Packet \<Rightarrow>
   'u Ctxt \<Rightarrow> 'u Ctxt result" where
  "makeEncryptedMutation lib be r packet encryptedPayload =
     (case MakeRandByteStream lib r of
        Inl e \<Rightarrow> Inl e
      | Inr randByteStream \<Rightarrow>
          (case fold (mutation_step lib be packet encryptedPayload) [0..<length encryptedPayload div 2]
                  (Inr (replicate (length encryptedPayload) NilSample, randByteStream)) of
             Inl e \<Rightarrow> Inl e
           | Inr (randomPayload, _) \<Rightarrow> Inr randomPayload))"

definition xorBytes :: "byte list \<Rightarrow> byte list \<Rightarrow> byte list result" where
  "xorBytes a b =
     (if length a \<noteq> length b then Inl (Panic ''expected equal number of bytes'')
      else Inr (map (\<lambda>i. (a ! i) XOR (b ! i)) [0..<length a]))"

text \<open>
  The handlers take the server, the outcome of decoding the request body (\<open>Inl\<close> the
  decoder's error) and what the environment supplies, and return what they write and
  the server afterwards. A panic inside a handler is \<open>Inl\<close>.

  \<open>SignUpHandler\<close>: \<open>rnd\<close> is the outcome of \<^verbatim>\<open>rand.Read(salt)\<close>, \<open>Inl\<close> its error, \<open>Inr src\<close>
  the bytes it stores, \<open>src i\<close> at index \<open>i\<close>.
\<close>

definition SignUpHandler ::
  "('blk, 'st) stdlib \<Rightarrow> 'u Server \<Rightarrow> string + 'u SignUpRequest \<Rightarrow> string + (nat \<Rightarrow> byte) \<Rightarrow>
   unit response result \<times> 'u Server" where
  "SignUpHandler lib s decoded rnd =
     (case decoded of
        Inl err \<Rightarrow> (Inr (HttpError err StatusBadRequest), s)
      | Inr signUpRequest \<Rightarrow>
          (case userDatabase s (SignUpRequest_Username signUpRequest) of
             Some _ \<Rightarrow> (Inr (HttpError errUserExists StatusBadRequest), s)
           | None \<Rightarrow>
               if saltByteLen s < 0 then (Inl (Panic ''makeslice: len out of range''), s)
               else (case rnd of
                       Inl err \<Rightarrow> (Inr (HttpError err StatusInternalServerError), s)
                     | Inr src \<Rightarrow>
                         (let salt = map src [0..<nat (saltByteLen s)];
                              hashBytes = salt @ SignUpRequest_Secret signUpRequest
                          in case fnv64_Sum lib hashBytes of
                               Inl err \<Rightarrow> (Inr (HttpError err StatusInternalServerError), s)
                             | Inr digest \<Rightarrow>
                                 (Inr (WriteHeader StatusOK ()),
                                  s\<lparr>userDatabase := (userDatabase s)
                                       (SignUpRequest_Username signUpRequest \<mapsto>
                                          \<lparr>User_Username = SignUpRequest_Username signUpRequest,
                                           User_EncryptedSecret = SignUpRequest_EncryptedSecret signUpRequest,
                                           User_SecretHash = digest,
                                           User_Salt = salt\<rparr>)\<rparr>)))))"

text \<open>\<open>FirstLoginHandler\<close>: \<open>r\<close> is the value of \<^verbatim>\<open>rand.Uint64()\<close> that seeds the coins.\<close>

definition FirstLoginHandler ::
  "('blk, 'st) stdlib \<Rightarrow> (('lp, 'gp, 'tp, 'ks, 'r, 'ps) gates_PublicKey, 'prv, 'u) backend \<Rightarrow>
   'u Server \<Rightarrow> string + ('lp, 'gp, 'tp, 'ks, 'r, 'ps) FirstLogInRequest \<Rightarrow> 64 word \<Rightarrow>
   'u FirstLogInResponse response result \<times> 'u Server" where
  "FirstLoginHandler lib be s decoded r =
     (case decoded of
        Inl err \<Rightarrow> (Inr (HttpError err StatusBadRequest), s)
      | Inr firstLogInRequest \<Rightarrow>
          (case userDatabase s (FirstLogInRequest_Username firstLogInRequest) of
             None \<Rightarrow> (Inr (HttpError errUserDoesNotExist StatusBadRequest), s)
           | Some user \<Rightarrow>
               (let serverPacket = MakePublicPacket (FirstLogInRequest_PublicKey firstLogInRequest)
                in case makeEncryptedMutation lib be r serverPacket (User_EncryptedSecret user) of
                     Inl e \<Rightarrow> (Inl e, s)
                   | Inr randomPayload \<Rightarrow>
                       (case Xor be serverPacket randomPayload (User_EncryptedSecret user) of
                          Inl e \<Rightarrow> (Inl e, s)
                        | Inr x \<Rightarrow> (Inr (WriteHeader StatusOK \<lparr>EncryptedMutatedSecret = x\<rparr>), s)))))"

definition SecondLoginHandler ::
  "('blk, 'st) stdlib \<Rightarrow> 'u Server \<Rightarrow> string + SecondLogInRequest \<Rightarrow>
   unit response result \<times> 'u Server" where
  "SecondLoginHandler lib s decoded =
     (case decoded of
        Inl err \<Rightarrow> (Inr (HttpError err StatusBadRequest), s)
      | Inr secondLogInRequest \<Rightarrow>
          (case userDatabase s (SecondLogInRequest_Username secondLogInRequest) of
             None \<Rightarrow> (Inr (HttpError errUserDoesNotExist StatusBadRequest), s)
           | Some user \<Rightarrow>
               (let hashBytes = User_Salt user @ SecondLogInRequest_Secret secondLogInRequest
                in case fnv64_Sum lib hashBytes of
                     Inl err \<Rightarrow> (Inr (HttpError err StatusInternalServerError), s)
                   | Inr secretHash \<Rightarrow>
                       if secretHash \<noteq> User_SecretHash user
                       then (Inr (HttpError errInvalidCredentials StatusForbidden), s)
                       else (Inr (WriteHeader StatusOK ()), s))))"

subsection \<open>The client\<close>

record Client =
  Port :: "16 word"
  messageByteLen :: int

definition NewClient :: "int \<Rightarrow> 16 word \<Rightarrow> Client" where
  "NewClient n prt = \<lparr>Port = prt, messageByteLen = n\<rparr>"

text \<open>
  \<open>SignUp\<close> up to the HTTP call. \<open>packet\<close> is the packet that \<open>MakePacket\<close> derived from the
  password. \<open>buildSignUpRequest\<close> is the part of \<open>SignUp\<close> from
  \<^verbatim>\<open>payload := append(noise, xorBytes(noise, secret)...)\<close> on, for any \<open>noise\<close> and \<open>secret\<close>;
  \<open>SignUp_request\<close> calls it with the \<open>noise\<close> and \<open>secret\<close> of the source: \<open>noise\<close> all
  zero, \<open>secret\<close> from a random byte stream seeded with \<open>r\<close>.
\<close>

definition buildSignUpRequest ::
  "('pub, 'prv, 'u) backend \<Rightarrow> ('pub, 'prv) Packet \<Rightarrow> string \<Rightarrow> byte list \<Rightarrow> byte list \<Rightarrow>
   'u SignUpRequest result" where
  "buildSignUpRequest be packet username noise secret =
     (case xorBytes noise secret of
        Inl e \<Rightarrow> Inl e
      | Inr x \<Rightarrow>
          (let payload = noise @ x
           in case Encrypt be packet payload of
                Inl e \<Rightarrow> Inl e
              | Inr c \<Rightarrow>
                  Inr \<lparr>SignUpRequest_Username = username,
                       SignUpRequest_EncryptedSecret = c,
                       SignUpRequest_Secret = secret\<rparr>))"

definition SignUp_request ::
  "('blk, 'st) stdlib \<Rightarrow> ('pub, 'prv, 'u) backend \<Rightarrow> Client \<Rightarrow> ('pub, 'prv) Packet \<Rightarrow> string \<Rightarrow>
   64 word \<Rightarrow> 'u SignUpRequest result" where
  "SignUp_request lib be c packet username r =
     (if messageByteLen c < 0 then Inl (Panic ''makeslice: len out of range'')
      else (let noise = replicate (nat (messageByteLen c)) (0 :: byte)
            in case MakeRandByteStream lib r of
                 Inl e \<Rightarrow> Inl e
               | Inr rbs \<Rightarrow>
                   (case NextBytes lib rbs (messageByteLen c) of
                      Inl e \<Rightarrow> Inl e
                    | Inr (secret, _) \<Rightarrow> buildSignUpRequest be packet username noise secret)))"

text \<open>
  \<open>LogIn\<close> between its two HTTP calls: from the decoded first response to the second
  request. A slice expression panics when its bound is negative or beyond the length.
\<close>

definition LogIn_secondRequest ::
  "('pub, 'prv, 'u) backend \<Rightarrow> Client \<Rightarrow> ('pub, 'prv) Packet \<Rightarrow> string \<Rightarrow>
   'u FirstLogInResponse \<Rightarrow> SecondLogInRequest result" where
  "LogIn_secondRequest be c packet username firstLogInResponse =
     (case Decrypt be packet (EncryptedMutatedSecret firstLogInResponse) of
        Inl e \<Rightarrow> Inl e
      | Inr mutatedSecret \<Rightarrow>
          if messageByteLen c < 0 \<or> int (length mutatedSecret) < messageByteLen c
          then Inl (Panic ''slice bounds out of range'')
          else (case xorBytes (take (nat (messageByteLen c)) mutatedSecret)
                              (drop (nat (messageByteLen c)) mutatedSecret) of
                  Inl e \<Rightarrow> Inl e
                | Inr secret \<Rightarrow>
                    Inr \<lparr>SecondLogInRequest_Username = username, SecondLogInRequest_Secret = secret\<rparr>))"

subsection \<open>Notions used in the statements\<close>

text \<open>\<open>stream_skip lib st i\<close> is the cipher stream \<open>st\<close> after \<open>i\<close> bytes have been drawn,
  \<open>coin lib st i\<close> the byte that the call number \<open>i\<close> (from 0) of \<open>NextByte\<close> returns, and
  \<open>coin_unit\<close> the sample that the function \<open>f\<close> chosen on that byte makes of a sample.\<close>

fun stream_skip :: "('blk, 'st) stdlib \<Rightarrow> 'st \<Rightarrow> nat \<Rightarrow> 'st" where
  "stream_skip lib st 0 = st"
| "stream_skip lib st (Suc i) = snd (stream_next lib (stream_skip lib st i))"

definition coin :: "('blk, 'st) stdlib \<Rightarrow> 'st \<Rightarrow> nat \<Rightarrow> byte" where
  "coin lib st i = fst (stream_next lib (stream_skip lib st i))"

definition coin_unit ::
  "('blk, 'st) stdlib \<Rightarrow> ('pub, 'prv, 'u) backend \<Rightarrow> ('pub, 'prv) Packet \<Rightarrow> 'st \<Rightarrow> nat \<Rightarrow>
   'u \<Rightarrow> 'u" where
  "coin_unit lib be packet st i u = (if coin lib st i mod 2 = 0 then pk_Not be (Pub packet) u else u)"

text \<open>The bit that \<open>Decrypt\<close> takes from a sample: of the \<^verbatim>\<open>int\<close> that \<open>BootsSymDecrypt\<close>
  returns, \<^verbatim>\<open>byte(x) << 7\<close> keeps the lowest bit.\<close>

definition decrypted_bit :: "('pub, 'prv, 'u) backend \<Rightarrow> 'prv \<Rightarrow> 'u \<Rightarrow> bool" where
  "decrypted_bit be key u = odd (BootsSymDecrypt be key u)"

text \<open>How many bytes a call asks for.\<close>

fun call_size :: "call \<Rightarrow> int" where
  "call_size (CallNextBytes n) = n"
| "call_size CallNextByte = 1"

text \<open>\<open>shift_in\<close> is the assignment in the inner loop of \<open>Decrypt\<close> for a sample;
  \<open>decrypt_bytes\<close> folds it over a list of samples eight at a time, a last shorter group
  included. \<open>Decrypt_eq\<close> below shows that the loops of \<open>Decrypt\<close> compute it on a
  ciphertext without nil units.\<close>

definition shift_in :: "('u \<Rightarrow> int) \<Rightarrow> 'u \<Rightarrow> byte \<Rightarrow> byte" where
  "shift_in dec u r = drop_bit 1 r OR push_bit 7 (word_of_int (dec u))"

function decrypt_bytes :: "('u \<Rightarrow> int) \<Rightarrow> 'u list \<Rightarrow> byte list" where
  "decrypt_bytes dec e =
     (if e = [] then [] else fold (shift_in dec) (take 8 e) 0 # decrypt_bytes dec (drop 8 e))"
  by pat_completeness auto
termination
  by (relation "measure (\<lambda>(dec, e). length e)") auto

text \<open>The layout that reads "most significant bit first": the units of a byte are the
  encryptions of its bits 7, 6, ..., 0 in this order.\<close>

definition Encrypt_msb_first :: "('pub, 'prv, 'u) backend \<Rightarrow> 'prv \<Rightarrow> byte list \<Rightarrow> 'u Ctxt" where
  "Encrypt_msb_first be key payload =
     concat (map (\<lambda>b. map (\<lambda>j. Sample (BootsSymEncrypt be key (of_bool (bit b (7 - j))))) [0..<8])
               payload)"

subsection \<open>Instances to run the definitions on\<close>

text \<open>A backend that keeps the bit in the clear: keys are \<open>()\<close>, a sample is the bit
  itself, and a gate computes its boolean function.\<close>

definition plain_gates :: "('pub, unit, bool) backend" where
  "plain_gates =
     \<lparr>BootsSymEncrypt = (\<lambda>_ m. m \<noteq> 0),
      BootsSymDecrypt = (\<lambda>_ b. if b then 1 else 0),
      pk_And = (\<lambda>_ x y. x \<and> y),
      pk_Or = (\<lambda>_ x y. x \<or> y),
      pk_Xor = (\<lambda>_ x y. x \<noteq> y),
      pk_Xnor = (\<lambda>_ x y. x = y),
      pk_Not = (\<lambda>_ x. \<not> x),
      pk_Copy = (\<lambda>_ x. x)\<rparr>"

text \<open>The same backend for a packet whose public key is \<open>()\<close>, and for the packets
  of the server, whose public key is a go-tfhe public key.\<close>

definition plain_backend :: "(unit, unit, bool) backend" where
  "plain_backend = plain_gates"

definition plain_key_backend ::
  "((nat, nat, nat, nat, unit, nat) gates_PublicKey, unit, bool) backend" where
  "plain_key_backend = plain_gates"

definition plain_packet :: "(unit, unit) Packet" where
  "plain_packet = \<lparr>pub = (), prv = Some ()\<rparr>"

text \<open>A stand-in for the standard library: the digest is the data itself (the length
  of the data for the 64-bit one), a key is accepted when it is not empty, and the key
  stream counts up from the length of the IV.\<close>

definition counting_lib :: "(byte list, nat) stdlib" where
  "counting_lib =
     \<lparr>fnv128_Sum = (\<lambda>d. d),
      fnv64_Sum = (\<lambda>d. Inr [of_nat (length d)]),
      aes_NewCipher = (\<lambda>k. if k = [] then Inl ''invalid key size'' else Inr k),
      cipher_NewCTR = (\<lambda>blk iv. if length iv \<noteq> length blk then Inl ''IV length must equal block size''
                                  else Inr (length iv)),
      stream_next = (\<lambda>n. (of_nat n, Suc n))\<rparr>"

text \<open>Two servers to run the handlers on: a fresh one, and one with a user
  \<open>alice\<close> whose salt is \<open>[0, 0]\<close> and whose stored hash is \<open>[3]\<close>.\<close>

definition fresh_server :: "bool Server" where
  "fresh_server = NewServer 2 8080"

definition alice_request :: "bool SignUpRequest" where
  "alice_request =
     \<lparr>SignUpRequest_Username = ''alice'', SignUpRequest_EncryptedSecret = [],
      SignUpRequest_Secret = [0x12]\<rparr>"

definition alice_user :: "bool User" where
  "alice_user =
     \<lparr>User_Username = ''alice'', User_EncryptedSecret = [],
      User_SecretHash = [3], User_Salt = [0, 0]\<rparr>"

definition alice_server :: "bool Server" where
  "alice_server = fresh_server\<lparr>userDatabase := [''alice'' \<mapsto> alice_user]\<rparr>"

text \<open>A public key to run the conversions on.\<close>

definition sample_pk :: "(nat, nat, nat, nat, unit, nat) gates_PublicKey" where
  "sample_pk =
     \<lparr>gates_Params = 128,
      gates_Bkw =
        \<lparr>LweBkw_Bk = \<lparr>LweBk_InOutParams = 1, LweBk_BkParams = 2, LweBk_AccumParams = 3,
                       LweBk_ExtractParams = 4, LweBk_Ks = 5, LweBk_rest = ()\<rparr>,
         LweBkw_BkFFT =
           \<lparr>LweBkFFT_InOutParams = 1, LweBkFFT_BkParams = 2, LweBkFFT_AccumParams = 3,
            LweBkFFT_ExtractParams = 4,
            LweBkFFT_Bk =
              [\<lparr>TGsw_AllSample =
                   [\<lparr>TLwe_A = [\<lparr>Lagrange_Coefs = [(1, 2), (3, 4)]\<rparr>],
                     TLwe_CurrentVariance = 7, TLwe_K = 1\<rparr>],
                 TGsw_BlocSample =
                   [[\<lparr>TLwe_A = [\<lparr>Lagrange_Coefs = [(5, 6)]\<rparr>],
                      TLwe_CurrentVariance = 8, TLwe_K = 1\<rparr>]],
                 TGsw_K = 1, TGsw_L = 2\<rparr>],
            LweBkFFT_Ks = 5\<rparr>\<rparr>\<rparr>"

section \<open>Properties\<close>

declare Decrypt_loop.simps [simp del]
declare decrypt_bytes.simps [simp del]

subsection \<open>Encrypt\<close>

lemma bit_arg_eq: "uint (drop_bit j (b::byte)) AND 1 = of_bool (bit b j)"
proof -
  have "odd (uint (drop_bit j b)) = odd (drop_bit j b)"
    by (metis even_of_int_iff word_of_int_uint)
  then show ?thesis
    by (simp add: and_one_eq bit_iff_odd_drop_bit mod_2_eq_odd)
qed

lemma Encrypt_bit_Inr:
  assumes "prv p = Some key" "i < length ctxt"
  shows "Encrypt_bit be p b j (Inr (ctxt, i)) =
           Inr (ctxt[i := Sample (BootsSymEncrypt be key (of_bool (bit b j)))], Suc i)"
  using assms by (simp add: Encrypt_bit_def bit_arg_eq)

lemma Encrypt_inner:
  assumes "prv p = Some key"
  shows "i + m \<le> length ctxt \<Longrightarrow>
         \<exists>ctxt'. fold (Encrypt_bit be p b) [0..<m] (Inr (ctxt, i)) = Inr (ctxt', i + m)
            \<and> length ctxt' = length ctxt
            \<and> (\<forall>q < length ctxt. ctxt' ! q =
                 (if i \<le> q \<and> q < i + m then Sample (BootsSymEncrypt be key (of_bool (bit b (q - i))))
                  else ctxt ! q))"
proof (induction m)
  case 0
  then show ?case by auto
next
  case (Suc m)
  then obtain c1 where c1: "fold (Encrypt_bit be p b) [0..<m] (Inr (ctxt, i)) = Inr (c1, i + m)"
    "length c1 = length ctxt"
    "\<forall>q < length ctxt. c1 ! q =
                 (if i \<le> q \<and> q < i + m then Sample (BootsSymEncrypt be key (of_bool (bit b (q - i))))
                  else ctxt ! q)"
    by auto
  have lt: "i + m < length c1" using Suc.prems c1(2) by simp
  have step: "fold (Encrypt_bit be p b) [0..<Suc m] (Inr (ctxt, i)) =
      Inr (c1[i + m := Sample (BootsSymEncrypt be key (of_bool (bit b m)))], i + Suc m)"
    using c1(1) Encrypt_bit_Inr [OF assms lt] by simp
  show ?case
  proof (intro exI conjI allI impI)
    show "fold (Encrypt_bit be p b) [0..<Suc m] (Inr (ctxt, i)) =
      Inr (c1[i + m := Sample (BootsSymEncrypt be key (of_bool (bit b m)))], i + Suc m)" by (rule step)
    show "length (c1[i + m := Sample (BootsSymEncrypt be key (of_bool (bit b m)))]) = length ctxt"
      using c1(2) by simp
    fix q assume q: "q < length ctxt"
    show "c1[i + m := Sample (BootsSymEncrypt be key (of_bool (bit b m)))] ! q =
         (if i \<le> q \<and> q < i + Suc m then Sample (BootsSymEncrypt be key (of_bool (bit b (q - i)))) else ctxt ! q)"
    proof (cases "q = i + m")
      case True
      then show ?thesis using lt by simp
    next
      case False
      then show ?thesis using c1(3) q by (auto simp: nth_list_update)
    qed
  qed
qed

lemma Encrypt_outer:
  assumes "prv p = Some key"
  shows "i + 8 * length payload \<le> length ctxt \<Longrightarrow>
         \<exists>ctxt'. fold (\<lambda>b st. fold (Encrypt_bit be p b) [0..<8] st) payload (Inr (ctxt, i))
                   = Inr (ctxt', i + 8 * length payload)
            \<and> length ctxt' = length ctxt
            \<and> (\<forall>q < length ctxt. ctxt' ! q =
                 (if i \<le> q \<and> q < i + 8 * length payload
                  then Sample (BootsSymEncrypt be key (of_bool (bit (payload ! ((q - i) div 8)) ((q - i) mod 8))))
                  else ctxt ! q))"
proof (induction payload arbitrary: ctxt i)
  case Nil
  then show ?case by auto
next
  case (Cons b bs)
  have "i + 8 \<le> length ctxt" using Cons.prems by simp
  from Encrypt_inner [OF assms this, of be b]
  obtain c1 where c1: "fold (Encrypt_bit be p b) [0..<8] (Inr (ctxt, i)) = Inr (c1, i + 8)"
    "length c1 = length ctxt"
    "\<forall>q < length ctxt. c1 ! q =
                 (if i \<le> q \<and> q < i + 8 then Sample (BootsSymEncrypt be key (of_bool (bit b (q - i))))
                  else ctxt ! q)"
    by blast
  have "(i + 8) + 8 * length bs \<le> length c1" using Cons.prems c1(2) by simp
  from Cons.IH [OF this]
  obtain c2 where c2: "fold (\<lambda>b st. fold (Encrypt_bit be p b) [0..<8] st) bs (Inr (c1, i + 8))
                   = Inr (c2, (i + 8) + 8 * length bs)"
    "length c2 = length c1"
    "\<forall>q < length c1. c2 ! q =
                 (if i + 8 \<le> q \<and> q < (i + 8) + 8 * length bs
                  then Sample (BootsSymEncrypt be key (of_bool (bit (bs ! ((q - (i + 8)) div 8)) ((q - (i + 8)) mod 8))))
                  else c1 ! q)"
    by blast
  show ?case
  proof (intro exI conjI allI impI)
    show "fold (\<lambda>b st. fold (Encrypt_bit be p b) [0..<8] st) (b # bs) (Inr (ctxt, i))
           = Inr (c2, i + 8 * length (b # bs))"
      using c1(1) c2(1) by (simp add: add.assoc)
    show "length c2 = length ctxt" using c1(2) c2(2) by simp
    fix q assume q: "q < length ctxt"
    show "c2 ! q = (if i \<le> q \<and> q < i + 8 * length (b # bs)
                  then Sample (BootsSymEncrypt be key (of_bool (bit ((b # bs) ! ((q - i) div 8)) ((q - i) mod 8))))
                  else ctxt ! q)"
    proof (cases "i + 8 \<le> q \<and> q < (i + 8) + 8 * length bs")
      case True
      then obtain d where d: "q - i = d + 8" "q - (i + 8) = d"
        by (metis add.commute diff_diff_left le_add_diff_inverse2 le_diff_conv2 add_leD1 nat_le_linear)
      have "(d + 8) div 8 = Suc (d div 8)" "(d + 8) mod 8 = d mod 8" by simp_all
      then show ?thesis using True c2(3) c1(2) q d by simp
    next
      case False
      moreover have "q < length c1" using c1(2) q by simp
      ultimately have "c2 ! q = c1 ! q" using c2(3) by presburger
      also have "\<dots> = (if i \<le> q \<and> q < i + 8 then Sample (BootsSymEncrypt be key (of_bool (bit b (q - i))))
                  else ctxt ! q)" using c1(3) q by simp
      finally show ?thesis using False by (auto simp: div_eq_0_iff)
    qed
  qed
qed

lemma Encrypt_nth:
  assumes "prv p = Some key"
  shows "\<exists>ct. Encrypt be p payload = Inr ct \<and> length ct = 8 * length payload
          \<and> (\<forall>q < 8 * length payload. ct ! q =
                Sample (BootsSymEncrypt be key (of_bool (bit (payload ! (q div 8)) (q mod 8)))))"
proof -
  have "0 + 8 * length payload \<le> length (replicate (8 * length payload) (NilSample :: 'c lwe_ptr))"
    by simp
  from Encrypt_outer [OF assms this, of be]
  show ?thesis
    by (auto simp: Encrypt_def)
qed



lemma Encrypt_samples:
  assumes "prv p = Some key"
  shows "\<exists>us. Encrypt be p payload = Inr (map Sample us) \<and> length us = 8 * length payload
          \<and> (\<forall>q < 8 * length payload. us ! q =
                BootsSymEncrypt be key (of_bool (bit (payload ! (q div 8)) (q mod 8))))"
proof -
  from Encrypt_nth [OF assms, of be payload]
  obtain ct where ct: "Encrypt be p payload = Inr ct" "length ct = 8 * length payload"
    "\<forall>q < 8 * length payload. ct ! q =
        Sample (BootsSymEncrypt be key (of_bool (bit (payload ! (q div 8)) (q mod 8))))"
    by blast
  define us where "us = map (\<lambda>q. BootsSymEncrypt be key (of_bool (bit (payload ! (q div 8)) (q mod 8))))
                          [0..<8 * length payload]"
  have "ct = map Sample us"
    using ct(2,3) by (intro nth_equalityI) (simp_all add: us_def)
  then show ?thesis using ct(1) by (intro exI [of _ us]) (simp add: us_def)
qed

lemma nil_free_map: "NilSample \<notin> set e \<Longrightarrow> \<exists>us. e = map Sample us"
proof (induction e)
  case Nil
  then show ?case by simp
next
  case (Cons a e)
  then obtain us where "e = map Sample us" by auto
  moreover obtain u where "a = Sample u" using Cons.prems by (cases a) auto
  ultimately have "a # e = map Sample (u # us)" by simp
  then show ?case by (rule exI)
qed


subsection \<open>Decrypt\<close>

lemma decrypt_unit_simps [simp]:
  "decrypt_unit be key (Sample u) = Inr (BootsSymDecrypt be key u)"
  "decrypt_unit be key NilSample = Inl nil_dereference"
  by (simp_all add: decrypt_unit_def)

lemma even_byte_of_int: "even (word_of_int x :: byte) = even x"
  by (rule even_of_int_iff)

lemma ceil8_step: "0 < (n::nat) \<Longrightarrow> (n + 7) div 8 = Suc ((n - 8 + 7) div 8)"
proof (cases "n < 8")
  case True
  assume "0 < n"
  then have "(n + 7) div 8 = 1" using True by (intro div_nat_eqI) simp_all
  then show ?thesis using True by simp
next
  case False
  then obtain m where "n = m + 8" using le_Suc_ex [of 8 n] by (auto simp: add.commute)
  then show ?thesis by simp
qed

lemma bit_shift_in:
  "t < 8 \<Longrightarrow> bit (shift_in dec u r) t = (if t < 7 then bit r (Suc t) else odd (dec u))"
  by (auto simp add: shift_in_def bit_simps bit_0 even_byte_of_int dest: bit_imp_le_length)

lemma length_decrypt_bytes: "length (decrypt_bytes dec e) = (length e + 7) div 8"
proof (induction dec e rule: decrypt_bytes.induct)
  case (1 dec e)
  show ?case
  proof (cases "e = []")
    case True
    then show ?thesis by (simp add: decrypt_bytes.simps)
  next
    case False
    then have "length e > 0" by simp
    have "length (decrypt_bytes dec e) = Suc ((length e - 8 + 7) div 8)"
      using False 1 by (subst decrypt_bytes.simps) simp
    also have "\<dots> = (length e + 7) div 8"
      using ceil8_step [OF \<open>length e > 0\<close>] by simp
    finally show ?thesis .
  qed
qed

text \<open>On a ciphertext without nil units the loops of \<open>Decrypt\<close> compute \<open>decrypt_bytes\<close>.\<close>

lemma Decrypt_loop_eq:
  "\<lbrakk>e = map Sample us; \<forall>u. d (Sample u) = Inr (dec u); k \<le> 8; i < length us;
    \<forall>j'. j < j' \<and> j' < length res \<longrightarrow> res ! j' = 0;
    length res = Suc j + length (decrypt_bytes dec (drop (i + (8 - k)) us))\<rbrakk>
   \<Longrightarrow> Decrypt_loop d e i j k res =
         Inr (take j res @ [fold (shift_in dec) (take (8 - k) (drop i us)) (res ! j)]
                @ decrypt_bytes dec (drop (i + (8 - k)) us))"
proof (induction d e i j k res rule: Decrypt_loop.induct)
  case (1 d e i j k res)
  note e = "1.prems"(1) and d = "1.prems"(2)
  have le: "length e = length us" using e by simp
  have il: "i < length e" using le "1.prems"(4) by simp
  have ei: "e ! i = Sample (us ! i)" using e "1.prems"(4) by simp
  have di: "d (e ! i) = Inr (dec (us ! i))" using ei d by simp
  have jl: "j < length res" using "1.prems"(6) by simp
  show ?case
  proof (cases "k < 8")
    case True
    define res' where "res' = res[j := drop_bit 1 (res ! j) OR push_bit 7 (word_of_int (dec (us ! i)))]"
    have res'j: "res' ! j = shift_in dec (us ! i) (res ! j)"
      using jl by (simp add: res'_def shift_in_def)
    have dropi: "drop i us = us ! i # drop (Suc i) us"
      using "1.prems"(4) by (simp add: Cons_nth_drop_Suc)
    have "8 - k = Suc (8 - Suc k)" using True by simp
    then have tk: "take (8 - k) (drop i us) = us ! i # take (8 - Suc k) (drop (Suc i) us)"
      using dropi by (simp del: One_nat_def)
    show ?thesis
    proof (cases "length e \<le> i + 1")
      case last: True
      then have "drop (Suc i) us = []" using le by simp
      moreover have "drop (i + (8 - k)) us = []" using last True le by simp
      moreover have "length res = Suc j"
        using "1.prems"(6) \<open>drop (i + (8 - k)) us = []\<close> by (simp add: decrypt_bytes.simps)
      moreover have "Decrypt_loop d e i j k res = Inr res'"
        using True jl il last di by (subst Decrypt_loop.simps) (simp add: res'_def)
      moreover have "res' = take j res @ [shift_in dec (us ! i) (res ! j)]"
        using \<open>length res = Suc j\<close> res'j
        by (simp add: res'_def upd_conv_take_nth_drop shift_in_def)
      moreover have "fold (shift_in dec) (take (8 - k) (drop i us)) (res ! j) = shift_in dec (us ! i) (res ! j)"
        using tk \<open>drop (Suc i) us = []\<close> by simp
      ultimately show ?thesis by (simp add: decrypt_bytes.simps)
    next
      case more: False
      have step: "Decrypt_loop d e i j k res = Decrypt_loop d e (i + 1) j (k + 1) res'"
        using True jl il more di by (subst Decrypt_loop.simps) (simp add: res'_def Let_def)
      have eqd: "i + 1 + (8 - (k + 1)) = i + (8 - k)" using True by simp
      have IH: "Decrypt_loop d e (i + 1) j (k + 1) res' =
         Inr (take j res' @ [fold (shift_in dec) (take (8 - (k + 1)) (drop (i + 1) us)) (res' ! j)]
                @ decrypt_bytes dec (drop (i + 1 + (8 - (k + 1))) us))"
      proof (rule "1.IH"(1) [OF True _ di res'_def more e d])
        show "j < length res \<and> i < length e" using jl il by simp
        show "k + 1 \<le> 8" using True by simp
        show "i + 1 < length us" using more le by simp
        show "\<forall>j'. j < j' \<and> j' < length res' \<longrightarrow> res' ! j' = 0"
          using "1.prems"(5) by (simp add: res'_def)
        have "length res' = length res" by (simp add: res'_def)
        then show "length res' = Suc j + length (decrypt_bytes dec (drop (i + 1 + (8 - (k + 1))) us))"
          using "1.prems"(6) by (simp only: eqd)
      qed
      have "Decrypt_loop d e i j k res =
         Inr (take j res' @ [fold (shift_in dec) (take (8 - (k + 1)) (drop (i + 1) us)) (res' ! j)]
                @ decrypt_bytes dec (drop (i + (8 - k)) us))"
        using step IH by (simp only: eqd)
      moreover have "take j res' = take j res" by (simp add: res'_def)
      ultimately show ?thesis using tk res'j by simp
    qed
  next
    case False
    then have k8: "k = 8" using "1.prems"(3) by simp
    have ne: "drop i us \<noteq> []" using "1.prems"(4) by simp
    have db: "decrypt_bytes dec (drop i us) =
         fold (shift_in dec) (take 8 (drop i us)) 0 # decrypt_bytes dec (drop (i + 8) us)"
      using ne by (subst decrypt_bytes.simps) (simp add: add.commute)
    have len: "length res = Suc (Suc j) + length (decrypt_bytes dec (drop (i + 8) us))"
      using "1.prems"(6) k8 db by simp
    have step: "Decrypt_loop d e i j k res = Decrypt_loop d e i (j + 1) 0 res"
      using False by (subst Decrypt_loop.simps) simp
    have IH: "Decrypt_loop d e i (j + 1) 0 res =
         Inr (take (j + 1) res @ [fold (shift_in dec) (take (8 - 0) (drop i us)) (res ! (j + 1))]
                @ decrypt_bytes dec (drop (i + (8 - 0)) us))"
    proof (rule "1.IH"(2) [OF False e d])
      show "(0::nat) \<le> 8" by simp
      show "i < length us" by (rule "1.prems"(4))
      show "\<forall>j'. j + 1 < j' \<and> j' < length res \<longrightarrow> res ! j' = 0" using "1.prems"(5) by simp
      show "length res = Suc (j + 1) + length (decrypt_bytes dec (drop (i + (8 - 0)) us))"
        using len by simp
    qed
    have z: "res ! (j + 1) = 0" using "1.prems"(5) len by simp
    have tj: "take (j + 1) res = take j res @ [res ! j]"
      using jl by (simp add: take_Suc_conv_app_nth)
    show ?thesis using step IH z tj k8 db by simp
  qed
qed

lemma Decrypt_eq:
  assumes "prv p = Some key"
  shows "Decrypt be p (map Sample us) = Inr (decrypt_bytes (BootsSymDecrypt be key) us)"
proof (cases "us = []")
  case True
  then show ?thesis by (simp add: Decrypt_def decrypt_bytes.simps)
next
  case False
  let ?dec = "BootsSymDecrypt be key"
  let ?res = "replicate ((length us + 7) div 8) (0 :: byte)"
  have pos: "0 < length us" using False by simp
  have n0: "(length us + 7) div 8 \<noteq> 0" using ceil8_step [OF pos] by simp
  have len: "length ?res = Suc 0 + length (decrypt_bytes ?dec (drop (0 + (8 - 0)) us))"
    using ceil8_step [OF pos] by (simp add: length_decrypt_bytes)
  have "Decrypt_loop (decrypt_unit be key) (map Sample us) 0 0 0 ?res =
      Inr (take 0 ?res @ [fold (shift_in ?dec) (take (8 - 0) (drop 0 us)) (?res ! 0)]
                @ decrypt_bytes ?dec (drop (0 + (8 - 0)) us))"
    by (rule Decrypt_loop_eq) (use pos len in auto)
  moreover have "?res ! 0 = 0" using n0 by simp
  ultimately have "Decrypt_loop (decrypt_unit be key) (map Sample us) 0 0 0 ?res
                     = Inr (decrypt_bytes ?dec us)"
    using False by (simp add: decrypt_bytes.simps [of ?dec us])
  then show ?thesis using assms n0 by (simp add: Decrypt_def)
qed

lemma Decrypt_Nil: "Decrypt be p [] = Inr []"
  by (simp add: Decrypt_def)

lemma bit_fold_shift_in:
  "length c \<le> 8 \<Longrightarrow> t < 8 \<Longrightarrow>
   bit (fold (shift_in dec) c r) t =
     (if t + length c < 8 then bit r (t + length c) else odd (dec (c ! (t + length c - 8))))"
proof (induction c arbitrary: r)
  case Nil
  then show ?case by simp
next
  case (Cons u c)
  have "bit (fold (shift_in dec) (u # c) r) t = bit (fold (shift_in dec) c (shift_in dec u r)) t"
    by simp
  also have "\<dots> = (if t + length c < 8 then bit (shift_in dec u r) (t + length c)
                     else odd (dec (c ! (t + length c - 8))))"
    using Cons by simp
  also have "\<dots> = (if t + length (u # c) < 8 then bit r (t + length (u # c))
                     else odd (dec ((u # c) ! (t + length (u # c) - 8))))"
  proof (cases "t + length c < 8")
    case True
    then show ?thesis
      by (cases "t + length c < 7") (auto simp: bit_shift_in)
  next
    case False
    then have "t + length (u # c) - 8 = Suc (t + length c - 8)" by simp
    then show ?thesis using False by simp
  qed
  finally show ?case .
qed

lemma decrypt_bytes_nth:
  "j < (length e + 7) div 8 \<Longrightarrow>
   decrypt_bytes dec e ! j = fold (shift_in dec) (take 8 (drop (8 * j) e)) 0"
proof (induction j arbitrary: e)
  case 0
  then have "e \<noteq> []" by auto
  then show ?case by (subst decrypt_bytes.simps) simp
next
  case (Suc j)
  then have ne: "e \<noteq> []" by auto
  have "0 < length e" using ne by simp
  then have "j < (length (drop 8 e) + 7) div 8" using Suc.prems ceil8_step [of "length e"] by simp
  from Suc.IH [OF this] show ?case
    using ne by (subst decrypt_bytes.simps) (simp add: add.commute)
qed

lemma decrypt_bytes_bit:
  assumes "j < (length e + 7) div 8" "t < 8"
  shows "bit (decrypt_bytes dec e ! j) t \<longleftrightarrow>
           8 \<le> t + min 8 (length e - 8 * j)
           \<and> odd (dec (e ! (8 * j + (t + min 8 (length e - 8 * j) - 8))))"
proof -
  define c where "c = take 8 (drop (8 * j) e)"
  define m where "m = min 8 (length e - 8 * j)"
  have lc: "length c = m" by (simp add: c_def m_def)
  have m8: "m \<le> 8" by (simp add: m_def)
  have "bit (decrypt_bytes dec e ! j) t = bit (fold (shift_in dec) c 0) t"
    using assms(1) by (simp add: decrypt_bytes_nth c_def)
  also have "\<dots> = (if t + length c < 8 then bit (0 :: byte) (t + length c)
                     else odd (dec (c ! (t + length c - 8))))"
    by (rule bit_fold_shift_in) (use assms(2) lc m8 in simp_all)
  also have "\<dots> = (8 \<le> t + m \<and> odd (dec (c ! (t + m - 8))))"
    using lc by auto
  also have "\<dots> = (8 \<le> t + m \<and> odd (dec (e ! (8 * j + (t + m - 8)))))"
  proof (cases "8 \<le> t + m")
    case True
    have "t + m - 8 < m" using assms(2) True by linarith
    moreover have "m \<le> length e - 8 * j" by (simp add: m_def)
    ultimately have "t + m - 8 < 8" "8 * j + (t + m - 8) < length e"
      using m8 by linarith+
    then have "c ! (t + m - 8) = e ! (8 * j + (t + m - 8))"
      by (simp add: c_def)
    then show ?thesis by simp
  next
    case False
    then show ?thesis by simp
  qed
  finally show ?thesis by (simp add: m_def)
qed


lemma decrypt_bytes_full_bit:
  assumes "length e = 8 * n" "i < n" "t < 8"
  shows "bit (decrypt_bytes dec e ! i) t \<longleftrightarrow> odd (dec (e ! (8 * i + t)))"
proof -
  have "8 * i + 8 \<le> 8 * n" using assms(2) by simp
  then have m: "min 8 (length e - 8 * i) = 8" using assms(1) by simp
  have "i < (length e + 7) div 8" using assms(1,2) by simp
  from decrypt_bytes_bit [OF this assms(3), of dec] show ?thesis
    by (simp only: m) simp
qed

lemma length_decrypt_bytes_full: "length e = 8 * n \<Longrightarrow> length (decrypt_bytes dec e) = n"
  by (simp add: length_decrypt_bytes)

text \<open>A nil unit ends \<open>Decrypt\<close> with the panic of \<open>BootsSymDecrypt\<close>.\<close>

lemma Decrypt_loop_nil:
  "\<lbrakk>\<forall>u. d (Sample u) = Inr (dec u); d NilSample = Inl err; k \<le> 8; i \<le> q; q < length e;
    e ! q = NilSample; length res = Suc j + (length e - (i + (8 - k)) + 7) div 8\<rbrakk>
   \<Longrightarrow> Decrypt_loop d e i j k res = Inl err"
proof (induction d e i j k res rule: Decrypt_loop.induct)
  case (1 d e i j k res)
  have il: "i < length e" using "1.prems"(4,5) by simp
  have jl: "j < length res" using "1.prems"(7) by simp
  show ?case
  proof (cases "k < 8")
    case True
    show ?thesis
    proof (cases "e ! i")
      case NilSample
      then show ?thesis using True jl il "1.prems"(2) by (subst Decrypt_loop.simps) simp
    next
      case (Sample u)
      then have di: "d (e ! i) = Inr (dec u)" using "1.prems"(1) by simp
      define res' where "res' = res[j := drop_bit 1 (res ! j) OR push_bit 7 (word_of_int (dec u))]"
      have "q \<noteq> i" using Sample "1.prems"(6) by auto
      then have iq: "i + 1 \<le> q" using "1.prems"(4) by simp
      then have more: "\<not> length e \<le> i + 1" using "1.prems"(5) by simp
      have step: "Decrypt_loop d e i j k res = Decrypt_loop d e (i + 1) j (k + 1) res'"
        using True jl il more di by (subst Decrypt_loop.simps) (simp add: res'_def Let_def)
      have eqd: "i + 1 + (8 - (k + 1)) = i + (8 - k)" using True by simp
      have "Decrypt_loop d e (i + 1) j (k + 1) res' = Inl err"
      proof (rule "1.IH"(1) [OF True _ di res'_def more "1.prems"(1,2)])
        show "j < length res \<and> i < length e" using jl il by simp
        show "k + 1 \<le> 8" using True by simp
        show "i + 1 \<le> q" by (rule iq)
        show "q < length e" by (rule "1.prems"(5))
        show "e ! q = NilSample" by (rule "1.prems"(6))
        have "length res' = length res" by (simp add: res'_def)
        then show "length res' = Suc j + (length e - (i + 1 + (8 - (k + 1))) + 7) div 8"
          using "1.prems"(7) by (simp only: eqd)
      qed
      then show ?thesis using step by simp
    qed
  next
    case False
    then have k8: "k = 8" using "1.prems"(3) by simp
    have step: "Decrypt_loop d e i j k res = Decrypt_loop d e i (j + 1) 0 res"
      using False by (subst Decrypt_loop.simps) simp
    have pos: "0 < length e - i" using il by simp
    have "length e - i - 8 = length e - (i + 8)" by simp
    then have ce: "(length e - i + 7) div 8 = Suc ((length e - (i + 8) + 7) div 8)"
      using ceil8_step [OF pos] by simp
    have "Decrypt_loop d e i (j + 1) 0 res = Inl err"
    proof (rule "1.IH"(2) [OF False "1.prems"(1,2)])
      show "(0::nat) \<le> 8" by simp
      show "i \<le> q" by (rule "1.prems"(4))
      show "q < length e" by (rule "1.prems"(5))
      show "e ! q = NilSample" by (rule "1.prems"(6))
      have p7: "length res = Suc j + (length e - i + 7) div 8"
        using "1.prems"(7) unfolding k8 by (simp only: diff_self_eq_0 add_0_right)
      have g: "Suc j + (length e - i + 7) div 8 = Suc (j + 1) + (length e - (i + 8) + 7) div 8"
        by (simp only: ce)
      show "length res = Suc (j + 1) + (length e - (i + (8 - 0)) + 7) div 8"
        using p7 g by (simp only: diff_zero)
    qed
    then show ?thesis using step by simp
  qed
qed

lemma Decrypt_nil:
  assumes "prv p = Some key" and "NilSample \<in> set e"
  shows "Decrypt be p e = Inl nil_dereference"
proof -
  from assms(2) obtain q where q: "q < length e" "e ! q = NilSample"
    by (auto simp: in_set_conv_nth)
  let ?res = "replicate ((length e + 7) div 8) (0 :: byte)"
  have pos: "0 < length e" using q(1) by (cases e) simp_all
  have n0: "(length e + 7) div 8 \<noteq> 0" using ceil8_step [OF pos] by simp
  have len: "length ?res = Suc 0 + (length e - (0 + (8 - 0)) + 7) div 8"
    using ceil8_step [OF pos] by simp
  have "Decrypt_loop (decrypt_unit be key) e 0 0 0 ?res = Inl nil_dereference"
  proof (rule Decrypt_loop_nil [where q = q and dec = "BootsSymDecrypt be key"])
    show "\<forall>u. decrypt_unit be key (Sample u) = Inr (BootsSymDecrypt be key u)" by simp
    show "decrypt_unit be key NilSample = Inl nil_dereference" by simp
    show "(0::nat) \<le> 8" "0 \<le> q" by simp_all
    show "q < length e" "e ! q = NilSample" by (rule q)+
    show "length ?res = Suc 0 + (length e - (0 + (8 - 0)) + 7) div 8" by (rule len)
  qed
  then show ?thesis using assms(1) n0 by (simp add: Decrypt_def)
qed

text \<open>Without nil units \<open>Decrypt\<close> returns, and this is where each bit of each byte
  comes from.\<close>

lemma Decrypt_nil_free:
  assumes "prv p = Some key" and "NilSample \<notin> set e"
  shows "\<exists>r. Decrypt be p e = Inr r \<and> length r = (length e + 7) div 8 \<and>
           (\<forall>j < length r. \<forall>t < 8.
              bit (r ! j) t \<longleftrightarrow>
                8 \<le> t + min 8 (length e - 8 * j) \<and>
                (\<exists>v. decrypt_unit be key (e ! (8 * j + (t + min 8 (length e - 8 * j) - 8))) = Inr v
                     \<and> odd v))"
proof -
  let ?dec = "BootsSymDecrypt be key"
  from nil_free_map [OF assms(2)] obtain us where us: "e = map Sample us" by blast
  have le: "length e = length us" using us by simp
  show ?thesis
  proof (intro exI conjI allI impI)
    show "Decrypt be p e = Inr (decrypt_bytes ?dec us)"
      unfolding us by (rule Decrypt_eq [OF assms(1)])
    show "length (decrypt_bytes ?dec us) = (length e + 7) div 8"
      using le by (simp add: length_decrypt_bytes)
    fix j t :: nat
    assume j: "j < length (decrypt_bytes ?dec us)" and t: "t < 8"
    define m where "m = min 8 (length us - 8 * j)"
    have j': "j < (length us + 7) div 8" using j by (simp add: length_decrypt_bytes)
    have b: "bit (decrypt_bytes ?dec us ! j) t \<longleftrightarrow>
               8 \<le> t + m \<and> odd (?dec (us ! (8 * j + (t + m - 8))))"
      unfolding m_def using j' t by (rule decrypt_bytes_bit)
    have "(\<exists>v. decrypt_unit be key (e ! (8 * j + (t + m - 8))) = Inr v \<and> odd v)
            \<longleftrightarrow> odd (?dec (us ! (8 * j + (t + m - 8))))" if "8 \<le> t + m"
    proof -
      have "t + m - 8 < m" using t that by linarith
      moreover have "m \<le> length us - 8 * j" by (simp add: m_def)
      ultimately have "8 * j + (t + m - 8) < length us" by linarith
      then have "e ! (8 * j + (t + m - 8)) = Sample (us ! (8 * j + (t + m - 8)))"
        using us by simp
      then show ?thesis by simp
    qed
    then show "bit (decrypt_bytes ?dec us ! j) t \<longleftrightarrow>
                8 \<le> t + min 8 (length e - 8 * j) \<and>
                (\<exists>v. decrypt_unit be key (e ! (8 * j + (t + min 8 (length e - 8 * j) - 8))) = Inr v
                     \<and> odd v)"
      using b unfolding le m_def [symmetric] by blast
  qed
qed

lemma roundtrip_aux:
  assumes "prv p = Some key"
    and "even (BootsSymDecrypt be key (BootsSymEncrypt be key 0))"
    and "odd (BootsSymDecrypt be key (BootsSymEncrypt be key 1))"
  shows "\<exists>ct. Encrypt be p payload = Inr ct \<and> Decrypt be p ct = Inr payload"
proof -
  let ?dec = "BootsSymDecrypt be key"
  from Encrypt_samples [OF assms(1), of be payload]
  obtain us where ct: "Encrypt be p payload = Inr (map Sample us)" "length us = 8 * length payload"
    "\<forall>q < 8 * length payload. us ! q =
        BootsSymEncrypt be key (of_bool (bit (payload ! (q div 8)) (q mod 8)))"
    by blast
  have "decrypt_bytes ?dec us = payload"
  proof (rule nth_equalityI)
    show "length (decrypt_bytes ?dec us) = length payload"
      using ct(2) by (rule length_decrypt_bytes_full)
  next
    fix i assume "i < length (decrypt_bytes ?dec us)"
    then have i: "i < length payload" using ct(2) by (simp add: length_decrypt_bytes_full)
    show "decrypt_bytes ?dec us ! i = payload ! i"
    proof (rule bit_word_eqI)
      fix t assume "t < LENGTH(8)"
      then have t: "t < 8" by simp
      have q: "8 * i + t < 8 * length payload" using i t by simp
      have dm: "(8 * i + t) div 8 = i" "(8 * i + t) mod 8 = t" using t by simp_all
      have "bit (decrypt_bytes ?dec us ! i) t = odd (?dec (us ! (8 * i + t)))"
        using ct(2) i t by (rule decrypt_bytes_full_bit)
      also have "\<dots> = odd (?dec (BootsSymEncrypt be key (of_bool (bit (payload ! i) t))))"
        using ct(3) q dm by simp
      also have "\<dots> = bit (payload ! i) t"
        using assms(2,3) by (cases "bit (payload ! i) t") simp_all
      finally show "bit (decrypt_bytes ?dec us ! i) t = bit (payload ! i) t" .
    qed
  qed
  then show ?thesis using ct(1) Decrypt_eq [OF assms(1), of be us] by simp
qed

lemma plain_simps [simp]:
  "BootsSymEncrypt plain_backend k m = (m \<noteq> 0)"
  "BootsSymDecrypt plain_backend k b = (if b then 1 else 0)"
  "pk_Xor plain_backend pk x y = (x \<noteq> y)"
  "pk_Not plain_backend pk x = (\<not> x)"
  "prv plain_packet = Some ()"
  by (simp_all add: plain_backend_def plain_gates_def plain_packet_def)

subsection \<open>Round trip\<close>

text \<open>
  C2. For every payload, the empty one included, and every packet that holds a private
  key: if decrypting the encryption of the bit 0 gives 0 and decrypting the encryption of
  the bit 1 gives 1, then \<open>Encrypt\<close> returns a ciphertext and \<open>Decrypt\<close> of that ciphertext
  returns the payload.
\<close>

theorem Decrypt_Encrypt_roundtrip:
  assumes "prv p = Some key"
    and "BootsSymDecrypt be key (BootsSymEncrypt be key 0) = 0"
    and "BootsSymDecrypt be key (BootsSymEncrypt be key 1) = 1"
  shows "\<exists>ct. Encrypt be p payload = Inr ct \<and> Decrypt be p ct = Inr payload"
proof (rule roundtrip_aux)
  show "prv p = Some key" by (rule assms(1))
  show "even (BootsSymDecrypt be key (BootsSymEncrypt be key 0))" by (simp only: assms(2)) simp
  show "odd (BootsSymDecrypt be key (BootsSymEncrypt be key 1))" by (simp only: assms(3)) simp
qed

theorem Decrypt_Encrypt_roundtrip_witness:
  "prv plain_packet = Some () \<and>
   BootsSymDecrypt plain_backend ()
     (BootsSymEncrypt plain_backend () 0) = 0 \<and>
   BootsSymDecrypt plain_backend ()
     (BootsSymEncrypt plain_backend () 1) = 1 \<and>
   (\<exists>ct. Encrypt plain_backend plain_packet [0x12, 0x34] = Inr ct \<and>
         Decrypt plain_backend plain_packet ct = Inr [0x12, 0x34]) \<and>
   (\<exists>ct. Encrypt plain_backend plain_packet [] = Inr ct \<and>
         Decrypt plain_backend plain_packet ct = Inr [])"
  using Decrypt_Encrypt_roundtrip [of plain_packet "()" plain_backend "[0x12, 0x34]"]
        Decrypt_Encrypt_roundtrip [of plain_packet "()" plain_backend "[]"]
  by simp

subsection \<open>Bit layout\<close>

text \<open>The byte 1 has its one set bit in position 0; \<open>Encrypt\<close> emits it first.\<close>

lemma Encrypt_byte_1:
  "Encrypt plain_backend plain_packet [1] =
     Inr [Sample True, Sample False, Sample False, Sample False,
          Sample False, Sample False, Sample False, Sample False]"
  by code_simp

text \<open>Three units fill the three highest bits of the one byte returned:
  \<open>160 = 2^7 + 2^5\<close>.\<close>

lemma Decrypt_three_units:
  "Decrypt plain_backend plain_packet [Sample True, Sample False, Sample True] = Inr [160]"
  by code_simp

text \<open>
  C4, as stated: \<open>Encrypt\<close> emits the bits of each byte most significant bit first. It
  does not: for the payload of the single byte 1 the ciphertext is not the one whose
  units encrypt the bits 7, 6, ..., 0.
\<close>

theorem Encrypt_msb_first_counterexample:
  "Encrypt plain_backend plain_packet [1]
     \<noteq> Inr (Encrypt_msb_first plain_backend () [1])"
  by code_simp

text \<open>
  C4, amended. For a packet with a private key, \<open>Encrypt\<close> returns exactly 8 units per
  payload byte, none of them nil, and unit \<open>8 * i + j\<close> encrypts bit \<open>j\<close> of byte \<open>i\<close>,
  bit 0 (the least significant) first; \<open>Decrypt\<close> of a ciphertext of \<open>8 * n\<close> units, none
  of them nil, returns \<open>n\<close> bytes and takes bit \<open>j\<close> of byte \<open>i\<close> from unit \<open>8 * i + j\<close>, the
  same order: the bit is set exactly when \<open>BootsSymDecrypt\<close> of that unit is odd.
\<close>

theorem Encrypt_Decrypt_lsb_first:
  assumes "prv p = Some key"
  shows "(\<exists>ct. Encrypt be p payload = Inr ct \<and> length ct = 8 * length payload \<and>
            (\<forall>i < length payload. \<forall>j < 8.
               ct ! (8 * i + j) = Sample (BootsSymEncrypt be key (of_bool (bit (payload ! i) j))))) \<and>
         (length e = 8 * n \<longrightarrow> NilSample \<notin> set e \<longrightarrow>
            (\<exists>r. Decrypt be p e = Inr r \<and> length r = n \<and>
               (\<forall>i < n. \<forall>j < 8.
                  bit (r ! i) j \<longleftrightarrow>
                    (\<exists>v. decrypt_unit be key (e ! (8 * i + j)) = Inr v \<and> odd v))))"
proof (intro conjI impI)
  from Encrypt_nth [OF assms, of be payload]
  obtain ct where ct: "Encrypt be p payload = Inr ct" "length ct = 8 * length payload"
    "\<forall>q < 8 * length payload. ct ! q =
        Sample (BootsSymEncrypt be key (of_bool (bit (payload ! (q div 8)) (q mod 8))))"
    by blast
  have "ct ! (8 * i + j) = Sample (BootsSymEncrypt be key (of_bool (bit (payload ! i) j)))"
    if "i < length payload" "j < 8" for i j
  proof -
    have "8 * i + j < 8 * length payload" using that by simp
    moreover have "(8 * i + j) div 8 = i" "(8 * i + j) mod 8 = j" using that(2) by simp_all
    ultimately show ?thesis using ct(3) by simp
  qed
  then show "\<exists>ct. Encrypt be p payload = Inr ct \<and> length ct = 8 * length payload \<and>
            (\<forall>i < length payload. \<forall>j < 8.
               ct ! (8 * i + j) = Sample (BootsSymEncrypt be key (of_bool (bit (payload ! i) j))))"
    using ct(1,2) by blast
next
  assume len: "length e = 8 * n" and nf: "NilSample \<notin> set e"
  from Decrypt_nil_free [OF assms nf, of be]
  obtain r where r: "Decrypt be p e = Inr r" "length r = (length e + 7) div 8"
    "\<forall>j < length r. \<forall>t < 8.
              bit (r ! j) t \<longleftrightarrow>
                8 \<le> t + min 8 (length e - 8 * j) \<and>
                (\<exists>v. decrypt_unit be key (e ! (8 * j + (t + min 8 (length e - 8 * j) - 8))) = Inr v
                     \<and> odd v)"
    by blast
  have lr: "length r = n" using r(2) len by simp
  have "bit (r ! i) j \<longleftrightarrow> (\<exists>v. decrypt_unit be key (e ! (8 * i + j)) = Inr v \<and> odd v)"
    if "i < n" "j < 8" for i j
  proof -
    have "8 * i + 8 \<le> 8 * n" using that(1) by simp
    then have m: "min 8 (length e - 8 * i) = 8" using len by simp
    have "bit (r ! i) j \<longleftrightarrow>
                8 \<le> j + min 8 (length e - 8 * i) \<and>
                (\<exists>v. decrypt_unit be key (e ! (8 * i + (j + min 8 (length e - 8 * i) - 8))) = Inr v
                     \<and> odd v)"
      using r(3) that lr by blast
    then show ?thesis by (simp only: m) simp
  qed
  then show "\<exists>r. Decrypt be p e = Inr r \<and> length r = n \<and>
               (\<forall>i < n. \<forall>j < 8.
                  bit (r ! i) j \<longleftrightarrow>
                    (\<exists>v. decrypt_unit be key (e ! (8 * i + j)) = Inr v \<and> odd v))"
    using r(1) lr by blast
qed

theorem Encrypt_Decrypt_lsb_first_witness:
  "prv plain_packet = Some () \<and>
   length [Sample True, Sample False, Sample False, Sample False,
           Sample False, Sample False, Sample False, Sample False :: bool lwe_ptr] = 8 * 1 \<and>
   NilSample \<notin> set [Sample True, Sample False, Sample False, Sample False,
                     Sample False, Sample False, Sample False, Sample False :: bool lwe_ptr] \<and>
   (\<exists>ct. Encrypt plain_backend plain_packet [1] = Inr ct \<and> length ct = 8 \<and>
         ct ! 0 = Sample (BootsSymEncrypt plain_backend ()
                    (of_bool (bit (1 :: byte) 0)))) \<and>
   (\<exists>r. Decrypt plain_backend plain_packet
           [Sample True, Sample False, Sample False, Sample False,
            Sample False, Sample False, Sample False, Sample False] = Inr r \<and>
        length r = 1 \<and> bit (r ! 0) 0)"
  using Encrypt_Decrypt_lsb_first [of plain_packet "()" plain_backend "[1]"
          "[Sample True, Sample False, Sample False, Sample False,
            Sample False, Sample False, Sample False, Sample False]" 1]
  by force

subsection \<open>Decrypt on any length\<close>

text \<open>
  C10, as stated: \<open>Decrypt\<close> does not fail on any non-empty ciphertext. It does when a
  unit is nil, as in a ciphertext decoded from JSON with a \<^verbatim>\<open>null\<close> entry: the unit is
  handed to \<open>BootsSymDecrypt\<close>, which panics.
\<close>

theorem Decrypt_nil_unit_counterexample:
  "[Sample True, NilSample] \<noteq> [] \<and> prv plain_packet = Some () \<and>
   Decrypt plain_backend plain_packet [Sample True, NilSample]
     = Inl (Panic ''invalid memory address or nil pointer dereference'')"
  by code_simp

text \<open>
  C10, amended. \<open>Decrypt\<close> of the empty ciphertext returns the empty (nil) slice. For a
  packet with a private key and a ciphertext of any length \<open>L > 0\<close> without nil units,
  \<open>Decrypt\<close> does not panic and returns \<open>(L + 7) div 8\<close> bytes, the ceiling of \<open>L / 8\<close>.
  Byte \<open>j\<close> is built from the \<open>m = min 8 (L - 8 * j)\<close> units from position \<open>8 * j\<close> on: its
  bit \<open>t\<close> is set exactly when \<open>8 - m \<le> t\<close> and \<open>BootsSymDecrypt\<close> of unit
  \<open>8 * j + (t - (8 - m))\<close> is odd. So a last byte with \<open>m < 8\<close> holds its units in its \<open>m\<close>
  highest bits and zeros below. For a packet with a private key and a ciphertext with a
  nil unit, \<open>Decrypt\<close> panics on the nil pointer.
\<close>

theorem Decrypt_any_length_nil_free:
  "Decrypt be p [] = Inr [] \<and>
   (e \<noteq> [] \<longrightarrow> NilSample \<notin> set e \<longrightarrow> prv p = Some key \<longrightarrow>
      (\<exists>r. Decrypt be p e = Inr r \<and> length r = (length e + 7) div 8 \<and>
         (\<forall>j < length r. \<forall>t < 8.
            bit (r ! j) t \<longleftrightarrow>
              8 \<le> t + min 8 (length e - 8 * j) \<and>
              (\<exists>v. decrypt_unit be key (e ! (8 * j + (t + min 8 (length e - 8 * j) - 8))) = Inr v
                   \<and> odd v)))) \<and>
   (NilSample \<in> set e \<longrightarrow> prv p = Some key \<longrightarrow> Decrypt be p e = Inl nil_dereference)"
proof (intro conjI impI)
  show "Decrypt be p [] = Inr []" by (rule Decrypt_Nil)
next
  assume "NilSample \<notin> set e" "prv p = Some key"
  then show "\<exists>r. Decrypt be p e = Inr r \<and> length r = (length e + 7) div 8 \<and>
         (\<forall>j < length r. \<forall>t < 8.
            bit (r ! j) t \<longleftrightarrow>
              8 \<le> t + min 8 (length e - 8 * j) \<and>
              (\<exists>v. decrypt_unit be key (e ! (8 * j + (t + min 8 (length e - 8 * j) - 8))) = Inr v
                   \<and> odd v))"
    by (intro Decrypt_nil_free)
next
  assume "NilSample \<in> set e" "prv p = Some key"
  then show "Decrypt be p e = Inl nil_dereference" by (intro Decrypt_nil)
qed

theorem Decrypt_any_length_nil_free_witness:
  "[Sample True, Sample False, Sample True] \<noteq> [] \<and>
   NilSample \<notin> set [Sample True, Sample False, Sample True] \<and>
   prv plain_packet = Some () \<and>
   (\<exists>r. Decrypt plain_backend plain_packet [Sample True, Sample False, Sample True] = Inr r \<and>
        length r = 1) \<and>
   NilSample \<in> set [Sample True, NilSample] \<and>
   Decrypt plain_backend plain_packet [Sample True, NilSample] = Inl nil_dereference"
  using Decrypt_any_length_nil_free
          [of plain_backend plain_packet "[Sample True, Sample False, Sample True]" "()"]
        Decrypt_any_length_nil_free
          [of plain_backend plain_packet "[Sample True, NilSample]" "()"]
  by force

subsection \<open>The binary gates check the lengths\<close>

lemma wait_all_Inr: "wait_all (map (\<lambda>i. Inr (f i)) xs) = Inr (map f xs)"
  by (induction xs) simp_all

lemma wait_all_Inl:
  "\<lbrakk>\<And>e. Inl e \<in> set rs \<Longrightarrow> e = err; Inl err \<in> set rs\<rbrakk> \<Longrightarrow> wait_all rs = Inl err"
proof (induction rs)
  case Nil
  then show ?case by simp
next
  case (Cons r rs)
  show ?case
  proof (cases r)
    case (Inl e)
    then have "Inl e \<in> set (r # rs)" by simp
    then have "e = err" by (rule Cons.prems(1))
    then show ?thesis using Inl by simp
  next
    case (Inr x)
    then have m: "Inl err \<in> set rs" using Cons.prems(2) by auto
    have "wait_all rs = Inl err"
    proof (rule Cons.IH)
      fix e assume "Inl e \<in> set rs"
      then have "Inl e \<in> set (r # rs)" by simp
      then show "e = err" by (rule Cons.prems(1))
    next
      show "Inl err \<in> set rs" by (rule m)
    qed
    then show ?thesis using Inr by simp
  qed
qed

lemma binary_gate_simps [simp]:
  "binary_gate g pk (Sample u) (Sample v) = Inr (Sample (g pk u v))"
  "binary_gate g pk NilSample b = Inl nil_dereference"
  "binary_gate g pk a NilSample = Inl nil_dereference"
  by (simp_all add: binary_gate_def split: lwe_ptr.splits)

lemma unary_gate_simps [simp]:
  "unary_gate h pk (Sample u) = Inr (Sample (h pk u))"
  "unary_gate h pk NilSample = Inl nil_dereference"
  by (simp_all add: unary_gate_def)

lemma ParallelBinary_mismatch:
  "length a \<noteq> length b \<Longrightarrow> ParallelBinary operation p a b = Inl (Panic ''expected equal bit size'')"
  by (simp add: ParallelBinary_def)

lemma ParallelBinary_samples:
  assumes "length us = length vs"
  shows "ParallelBinary (binary_gate g) p (map Sample us) (map Sample vs) =
           Inr (map (\<lambda>i. Sample (g (pub p) (us ! i) (vs ! i))) [0..<length us])"
proof -
  have eq: "map (\<lambda>i. binary_gate g (pub p) (map Sample us ! i) (map Sample vs ! i)) [0..<length us]
          = map (\<lambda>i. Inr (Sample (g (pub p) (us ! i) (vs ! i)))) [0..<length us]"
    using assms by (intro map_cong) simp_all
  have w: "wait_all (map (\<lambda>i. binary_gate g (pub p) (map Sample us ! i) (map Sample vs ! i))
                      [0..<length us])
             = Inr (map (\<lambda>i. Sample (g (pub p) (us ! i) (vs ! i))) [0..<length us])"
    by (simp only: eq wait_all_Inr)
  have "\<not> length (map Sample us) \<noteq> length (map Sample vs)" using assms by simp
  then have "ParallelBinary (binary_gate g) p (map Sample us) (map Sample vs)
      = wait_all (map (\<lambda>i. binary_gate g (pub p) (map Sample us ! i) (map Sample vs ! i))
                      [0..<length (map Sample us)])"
    by (simp only: ParallelBinary_def if_False)
  also have "\<dots> = Inr (map (\<lambda>i. Sample (g (pub p) (us ! i) (vs ! i))) [0..<length us])"
    using w by (simp only: length_map)
  finally show ?thesis .
qed

lemma ParallelBinary_nil_free:
  assumes "length a = length b" "NilSample \<notin> set a" "NilSample \<notin> set b"
  shows "\<exists>r. ParallelBinary (binary_gate g) p a b = Inr r \<and> length r = length a"
proof -
  from nil_free_map [OF assms(2)] obtain us where us: "a = map Sample us" by blast
  from nil_free_map [OF assms(3)] obtain vs where vs: "b = map Sample vs" by blast
  have "length us = length vs" using assms(1) us vs by simp
  from ParallelBinary_samples [OF this, of g p] show ?thesis using us vs by simp
qed

lemma binary_gate_Inl: "binary_gate g pk a b = Inl e \<Longrightarrow> e = nil_dereference"
  by (cases a; cases b) simp_all

lemma ParallelBinary_nil:
  assumes "length a = length b" "NilSample \<in> set a \<union> set b"
  shows "ParallelBinary (binary_gate g) p a b = Inl nil_dereference"
proof -
  let ?f = "\<lambda>i. binary_gate g (pub p) (a ! i) (b ! i)"
  obtain q where q: "q < length a" "a ! q = NilSample \<or> b ! q = NilSample"
  proof (cases "NilSample \<in> set a")
    case True
    then obtain q where "q < length a" "a ! q = NilSample" by (auto simp: in_set_conv_nth)
    then show ?thesis using that by blast
  next
    case False
    then have "NilSample \<in> set b" using assms(2) by simp
    then obtain q where "q < length b" "b ! q = NilSample" by (auto simp: in_set_conv_nth)
    then show ?thesis using that assms(1) by simp
  qed
  have fq: "?f q = Inl nil_dereference"
  proof (cases "a ! q")
    case NilSample
    then show ?thesis by simp
  next
    case (Sample u)
    then have "b ! q = NilSample" using q(2) by simp
    then show ?thesis by simp
  qed
  have "q \<in> set [0..<length a]" using q(1) by simp
  then have "?f q \<in> set (map ?f [0..<length a])" by (simp only: set_map) (rule imageI)
  then have 1: "Inl nil_dereference \<in> set (map ?f [0..<length a])" by (simp only: fq)
  have 2: "e = nil_dereference" if "Inl e \<in> set (map ?f [0..<length a])" for e
  proof -
    from that obtain i where "?f i = Inl e" by auto
    then show ?thesis by (rule binary_gate_Inl)
  qed
  have "wait_all (map ?f [0..<length a]) = Inl nil_dereference"
    using 2 1 by (rule wait_all_Inl)
  then show ?thesis using assms(1) by (simp add: ParallelBinary_def)
qed

text \<open>
  C6, as stated: for equal lengths each binary gate returns a result. It does not when a
  unit is nil: the goroutine for that index hands the nil unit to the gate of go-tfhe,
  which panics, and nothing is returned.
\<close>

theorem binary_gate_nil_unit_counterexample:
  "length [Sample True, NilSample] = length [Sample True, Sample False] \<and>
   Xor plain_backend plain_packet [Sample True, NilSample] [Sample True, Sample False]
     = Inl (Panic ''invalid memory address or nil pointer dereference'')"
  by code_simp

text \<open>
  C6, amended. For ciphertexts \<open>a\<close> and \<open>b\<close> of different lengths each of \<open>And\<close>, \<open>Or\<close>,
  \<open>Xor\<close> and \<open>XNor\<close> panics with "expected equal bit size" and returns nothing. For equal
  lengths and no nil unit in \<open>a\<close> or \<open>b\<close> none of them panics and each returns a ciphertext
  of the length of \<open>a\<close>. For equal lengths and a nil unit in \<open>a\<close> or \<open>b\<close> each of them
  panics on the nil pointer.
\<close>

theorem binary_gates_length_and_nil:
  "(length a \<noteq> length b \<longrightarrow>
      And be p a b = Inl (Panic ''expected equal bit size'') \<and>
      Or be p a b = Inl (Panic ''expected equal bit size'') \<and>
      Xor be p a b = Inl (Panic ''expected equal bit size'') \<and>
      XNor be p a b = Inl (Panic ''expected equal bit size'')) \<and>
   (length a = length b \<longrightarrow> NilSample \<notin> set a \<longrightarrow> NilSample \<notin> set b \<longrightarrow>
      (\<exists>r. And be p a b = Inr r \<and> length r = length a) \<and>
      (\<exists>r. Or be p a b = Inr r \<and> length r = length a) \<and>
      (\<exists>r. Xor be p a b = Inr r \<and> length r = length a) \<and>
      (\<exists>r. XNor be p a b = Inr r \<and> length r = length a)) \<and>
   (length a = length b \<longrightarrow> NilSample \<in> set a \<union> set b \<longrightarrow>
      And be p a b = Inl nil_dereference \<and>
      Or be p a b = Inl nil_dereference \<and>
      Xor be p a b = Inl nil_dereference \<and>
      XNor be p a b = Inl nil_dereference)"
  unfolding And_def Or_def Xor_def XNor_def
  by (intro conjI impI ParallelBinary_mismatch ParallelBinary_nil_free ParallelBinary_nil)

theorem binary_gates_length_and_nil_witness:
  "length [Sample True] \<noteq> length [Sample True, Sample False] \<and>
   Xor plain_backend plain_packet [Sample True] [Sample True, Sample False]
     = Inl (Panic ''expected equal bit size'') \<and>
   length [Sample True, Sample True] = length [Sample True, Sample False] \<and>
   NilSample \<notin> set [Sample True, Sample True] \<and> NilSample \<notin> set [Sample True, Sample False] \<and>
   (\<exists>r. Xor plain_backend plain_packet [Sample True, Sample True] [Sample True, Sample False] = Inr r
        \<and> length r = length [Sample True, Sample True]) \<and>
   length [Sample True, NilSample] = length [Sample True, Sample False] \<and>
   NilSample \<in> set [Sample True, NilSample] \<union> set [Sample True, Sample False] \<and>
   Xor plain_backend plain_packet [Sample True, NilSample] [Sample True, Sample False]
     = Inl nil_dereference"
  using binary_gates_length_and_nil
          [of "[Sample True]" "[Sample True, Sample False]" plain_backend plain_packet]
        binary_gates_length_and_nil
          [of "[Sample True, Sample True]" "[Sample True, Sample False]" plain_backend plain_packet]
        binary_gates_length_and_nil
          [of "[Sample True, NilSample]" "[Sample True, Sample False]" plain_backend plain_packet]
  by simp

subsection \<open>The byte stream\<close>

lemma length_XORKeyStream: "XORKeyStream lib st xs = (ys, st') \<Longrightarrow> length ys = length xs"
  by (induction xs arbitrary: st ys) (auto split: prod.splits)

lemma XORKeyStream_append:
  "XORKeyStream lib st (xs @ ys) =
     (case XORKeyStream lib st xs of (a, st1) \<Rightarrow>
        (case XORKeyStream lib st1 ys of (b, st2) \<Rightarrow> (a @ b, st2)))"
  by (induction xs arbitrary: st) (auto split: prod.splits)

lemma NextBytes_Inr:
  "NextBytes lib cbs n = Inr (v, cbs') \<longleftrightarrow>
     0 \<le> n \<and> XORKeyStream lib (stream cbs) (replicate (nat n) 0) = (v, stream cbs')"
  by (cases cbs; cases cbs') (auto simp: NextBytes_def split: prod.splits)

lemma NextBytes_length:
  "NextBytes lib cbs n = Inr (v, cbs') \<Longrightarrow> int (length v) = n"
  by (auto simp: NextBytes_Inr dest: length_XORKeyStream)

lemma NextByte_eq:
  "NextByte lib cbs = (case stream_next lib (stream cbs) of (k, s) \<Rightarrow> Inr (k, cbs\<lparr>stream := s\<rparr>))"
  by (simp add: NextByte_def NextBytes_def split: prod.splits)

lemma NextByte_Inr:
  "NextByte lib cbs = Inr (x, cbs') \<longleftrightarrow>
     XORKeyStream lib (stream cbs) (replicate (nat 1) 0) = ([x], stream cbs')"
  by (cases cbs; cases cbs') (auto simp: NextByte_eq split: prod.splits)

lemma run_calls_nonneg:
  "run_calls lib cbs cs = Inr (vs, cbs') \<Longrightarrow> 0 \<le> sum_list (map call_size cs)"
proof (induction cs arbitrary: cbs vs)
  case Nil
  then show ?case by simp
next
  case (Cons c cs)
  then show ?case
    by (cases c) (fastforce simp: NextBytes_Inr split: sum.splits prod.splits)+
qed

lemma run_calls_concat:
  "run_calls lib cbs cs = Inr (vs, cbs') \<Longrightarrow>
   XORKeyStream lib (stream cbs) (replicate (nat (sum_list (map call_size cs))) 0)
     = (concat vs, stream cbs')"
proof (induction cs arbitrary: cbs vs)
  case Nil
  then show ?case by auto
next
  case (Cons c cs)
  obtain v cbs1 vs1 where 2: "run_calls lib cbs1 cs = Inr (vs1, cbs')" and 3: "vs = v # vs1"
    and x: "0 \<le> call_size c"
       "XORKeyStream lib (stream cbs) (replicate (nat (call_size c)) 0) = (v, stream cbs1)"
  proof (cases c)
    case (CallNextBytes n)
    with Cons.prems that show ?thesis
      by (auto simp: NextBytes_Inr split: sum.splits prod.splits)
  next
    case CallNextByte
    with Cons.prems that show ?thesis
      by (auto simp: NextByte_Inr split: sum.splits prod.splits)
  qed
  have t0: "0 \<le> sum_list (map call_size cs)" using 2 by (rule run_calls_nonneg)
  have "replicate (nat (sum_list (map call_size (c # cs)))) (0::byte)
         = replicate (nat (call_size c)) 0 @ replicate (nat (sum_list (map call_size cs))) 0"
    using x(1) t0 by (simp add: nat_add_distrib replicate_add)
  then show ?case using x(2) Cons.IH [OF 2] 3 by (simp add: XORKeyStream_append)
qed

text \<open>The definitions run: from the key \<open>[7, 9]\<close> the stand-in library starts counting
  at 3.\<close>

lemma keystream_run_example:
  "keystream_run counting_lib [7, 9] [CallNextBytes 2, CallNextByte, CallNextBytes 0]
     = Inr [[3, 4], [5], []]"
  by code_simp

lemma keystream_run_example2:
  "keystream_run counting_lib [7, 9] [CallNextByte, CallNextBytes 2] = Inr [[3], [4, 5]]"
  by code_simp

lemma keystream_run_concat:
  assumes "keystream_run lib key cs = Inr vs"
  shows "\<exists>cbs st. MakeByteStream lib key = Inr cbs \<and>
           XORKeyStream lib (stream cbs) (replicate (nat (sum_list (map call_size cs))) 0)
             = (concat vs, st)"
proof -
  from assms obtain cbs where cbs: "MakeByteStream lib key = Inr cbs"
    by (cases "MakeByteStream lib key") (simp_all add: keystream_run_def)
  from assms cbs obtain cbs' where "run_calls lib cbs cs = Inr (vs, cbs')"
    by (cases "run_calls lib cbs cs") (auto simp: keystream_run_def)
  from run_calls_concat [OF this] cbs show ?thesis by blast
qed

lemma keystream_same_total:
  assumes "keystream_run lib key cs = Inr vs" and "keystream_run lib key cs' = Inr vs'"
    and "sum_list (map call_size cs) = sum_list (map call_size cs')"
  shows "concat vs = concat vs'"
proof -
  from keystream_run_concat [OF assms(1)] obtain cbs st where
    1: "MakeByteStream lib key = Inr cbs"
       "XORKeyStream lib (stream cbs) (replicate (nat (sum_list (map call_size cs))) 0)
          = (concat vs, st)"
    by blast
  from keystream_run_concat [OF assms(2)] obtain cbs' st' where
    2: "MakeByteStream lib key = Inr cbs'"
       "XORKeyStream lib (stream cbs') (replicate (nat (sum_list (map call_size cs'))) 0)
          = (concat vs', st')"
    by blast
  have "cbs' = cbs" using 1(1) 2(1) by simp
  then show ?thesis using 1(2) 2(2) assms(3) by simp
qed

text \<open>
  C5. Two byte streams made by \<open>MakeByteStream\<close> from equal key bytes are made alike
  (both fail or both are the same stream), and the same sequence of \<open>NextBytes\<close> and
  \<open>NextByte\<close> calls returns the same byte sequences on both. Moreover the bytes depend on
  the calls only through how many bytes have been drawn: two sequences of calls that
  draw the same number of bytes in all return, on the two streams, the same bytes in the
  same order, however the calls cut them up.
\<close>

theorem keystream_deterministic:
  "key1 = key2 \<Longrightarrow>
     MakeByteStream lib key1 = MakeByteStream lib key2 \<and>
     keystream_run lib key1 cs = keystream_run lib key2 cs \<and>
     (\<forall>cs' vs vs'.
        keystream_run lib key1 cs = Inr vs \<longrightarrow> keystream_run lib key2 cs' = Inr vs' \<longrightarrow>
        sum_list (map call_size cs) = sum_list (map call_size cs') \<longrightarrow>
        concat vs = concat vs')"
proof (intro conjI allI impI)
  fix cs' vs vs'
  assume "key1 = key2" "keystream_run lib key1 cs = Inr vs" "keystream_run lib key2 cs' = Inr vs'"
    "sum_list (map call_size cs) = sum_list (map call_size cs')"
  then show "concat vs = concat vs'" using keystream_same_total [of lib key2 cs vs cs' vs'] by simp
qed simp_all

theorem keystream_deterministic_witness:
  "([7, 9] :: byte list) = [7, 9] \<and>
   keystream_run counting_lib [7, 9] [CallNextBytes 2, CallNextByte, CallNextBytes 0]
     = keystream_run counting_lib [7, 9] [CallNextBytes 2, CallNextByte, CallNextBytes 0] \<and>
   keystream_run counting_lib [7, 9] [CallNextBytes 2, CallNextByte, CallNextBytes 0]
     = Inr [[3, 4], [5], []] \<and>
   keystream_run counting_lib [7, 9] [CallNextByte, CallNextBytes 2] = Inr [[3], [4, 5]] \<and>
   sum_list (map call_size [CallNextBytes 2, CallNextByte, CallNextBytes 0])
     = sum_list (map call_size [CallNextByte, CallNextBytes 2]) \<and>
   concat [[3, 4], [5], []] = concat [[3], [4, 5 :: byte]]"
proof -
  have t: "sum_list (map call_size [CallNextBytes 2, CallNextByte, CallNextBytes 0])
     = sum_list (map call_size [CallNextByte, CallNextBytes 2])"
    by simp
  from keystream_deterministic [of "[7, 9]" "[7, 9]" counting_lib
          "[CallNextBytes 2, CallNextByte, CallNextBytes 0]"]
  have "\<forall>cs' vs vs'.
        keystream_run counting_lib [7, 9] [CallNextBytes 2, CallNextByte, CallNextBytes 0] = Inr vs \<longrightarrow>
        keystream_run counting_lib [7, 9] cs' = Inr vs' \<longrightarrow>
        sum_list (map call_size [CallNextBytes 2, CallNextByte, CallNextBytes 0])
          = sum_list (map call_size cs') \<longrightarrow>
        concat vs = concat vs'"
    by blast
  with keystream_run_example keystream_run_example2 t
  have "concat [[3, 4], [5], []] = concat [[3], [4, 5 :: byte]]" by blast
  then show ?thesis using keystream_run_example keystream_run_example2 t by simp
qed

subsection \<open>Sign-up\<close>

text \<open>
  C7. Requests are handled one after another. A sign-up for a username that is not in
  the registry, on a server with a non-negative salt length, with \<^verbatim>\<open>rand.Read\<close> and the
  hash succeeding, answers status OK and stores the record of that username and nothing
  else: the registry afterwards is the old one with this one key added. Any later
  sign-up \<open>req2\<close> for the same username answers the client error "user already exists"
  (status 400) and leaves the registry as it is. A malformed body answers 400, a failure
  of \<^verbatim>\<open>rand.Read\<close> or of the hash 500, and whenever the answer is not OK (a panic
  included) the server is unchanged.
\<close>

theorem SignUp_exclusive_atomic:
  "(userDatabase s (SignUpRequest_Username req) = None \<longrightarrow> 0 \<le> saltByteLen s \<longrightarrow>
      fnv64_Sum lib (map src [0..<nat (saltByteLen s)] @ SignUpRequest_Secret req) = Inr digest \<longrightarrow>
      (\<exists>s'. SignUpHandler lib s (Inr req) (Inr src) = (Inr (WriteHeader StatusOK ()), s') \<and>
            userDatabase s' =
              (userDatabase s)(SignUpRequest_Username req \<mapsto>
                 \<lparr>User_Username = SignUpRequest_Username req,
                  User_EncryptedSecret = SignUpRequest_EncryptedSecret req,
                  User_SecretHash = digest,
                  User_Salt = map src [0..<nat (saltByteLen s)]\<rparr>) \<and>
            dom (userDatabase s') = insert (SignUpRequest_Username req) (dom (userDatabase s)) \<and>
            (\<forall>u. u \<noteq> SignUpRequest_Username req \<longrightarrow> userDatabase s' u = userDatabase s u) \<and>
            (SignUpRequest_Username req2 = SignUpRequest_Username req \<longrightarrow>
               SignUpHandler lib s' (Inr req2) rnd2 =
                 (Inr (HttpError errUserExists StatusBadRequest), s')))) \<and>
   SignUpHandler lib s (Inl err) rnd = (Inr (HttpError err StatusBadRequest), s) \<and>
   (userDatabase s (SignUpRequest_Username req) = None \<longrightarrow> 0 \<le> saltByteLen s \<longrightarrow>
      SignUpHandler lib s (Inr req) (Inl err) = (Inr (HttpError err StatusInternalServerError), s)) \<and>
   (userDatabase s (SignUpRequest_Username req) = None \<longrightarrow> 0 \<le> saltByteLen s \<longrightarrow>
      fnv64_Sum lib (map src [0..<nat (saltByteLen s)] @ SignUpRequest_Secret req) = Inl err \<longrightarrow>
      SignUpHandler lib s (Inr req) (Inr src) = (Inr (HttpError err StatusInternalServerError), s)) \<and>
   (fst (SignUpHandler lib s decoded rnd) \<noteq> Inr (WriteHeader StatusOK ()) \<longrightarrow>
      snd (SignUpHandler lib s decoded rnd) = s) \<and>
   400 \<le> StatusBadRequest \<and> StatusBadRequest < 500 \<and>
   500 \<le> StatusInternalServerError \<and> StatusInternalServerError < 600"
  by (auto simp: SignUpHandler_def Let_def StatusBadRequest_def StatusInternalServerError_def
        split: sum.splits option.splits)

lemma fresh_server_signup:
  "SignUpHandler counting_lib fresh_server (Inr alice_request) (Inr (\<lambda>_. 0))
     = (Inr (WriteHeader StatusOK ()), alice_server)"
  by (simp add: SignUpHandler_def fresh_server_def alice_server_def alice_request_def
        alice_user_def NewServer_def counting_lib_def upt_rec [of _ 2] upt_rec [of _ "Suc _"])

theorem SignUp_exclusive_atomic_witness:
  "userDatabase fresh_server (SignUpRequest_Username alice_request) = None \<and>
   0 \<le> saltByteLen fresh_server \<and>
   fnv64_Sum counting_lib
     (map (\<lambda>_. 0) [0..<nat (saltByteLen fresh_server)] @ SignUpRequest_Secret alice_request) = Inr [3] \<and>
   SignUpHandler counting_lib fresh_server (Inr alice_request) (Inr (\<lambda>_. 0))
     = (Inr (WriteHeader StatusOK ()), alice_server) \<and>
   SignUpRequest_Username alice_request = SignUpRequest_Username alice_request \<and>
   SignUpHandler counting_lib alice_server (Inr alice_request) (Inr (\<lambda>_. 0))
     = (Inr (HttpError errUserExists StatusBadRequest), alice_server) \<and>
   fst (SignUpHandler counting_lib fresh_server (Inl ''EOF'') (Inr (\<lambda>_. 0)))
     \<noteq> Inr (WriteHeader StatusOK ()) \<and>
   snd (SignUpHandler counting_lib fresh_server (Inl ''EOF'') (Inr (\<lambda>_. 0))) = fresh_server"
proof -
  have a: "userDatabase fresh_server (SignUpRequest_Username alice_request) = None"
    by (simp add: fresh_server_def NewServer_def)
  have b: "0 \<le> saltByteLen fresh_server"
    by (simp add: fresh_server_def NewServer_def)
  have c: "fnv64_Sum counting_lib
     (map (\<lambda>_. 0) [0..<nat (saltByteLen fresh_server)] @ SignUpRequest_Secret alice_request) = Inr [3]"
    by (simp add: fresh_server_def NewServer_def counting_lib_def alice_request_def)
  have d: "fst (SignUpHandler counting_lib fresh_server (Inl ''EOF'') (Inr (\<lambda>_. 0)))
     \<noteq> Inr (WriteHeader StatusOK ())"
    by (simp add: SignUpHandler_def)
  note inst = SignUp_exclusive_atomic [of fresh_server alice_request counting_lib "\<lambda>_. 0" "[3]"
          alice_request "Inr (\<lambda>_. 0)" "''EOF''" "Inr (\<lambda>_. 0)" "Inl ''EOF''"]
  from inst a b c obtain s' where
    s': "SignUpHandler counting_lib fresh_server (Inr alice_request) (Inr (\<lambda>_. 0))
           = (Inr (WriteHeader StatusOK ()), s')"
        "SignUpHandler counting_lib s' (Inr alice_request) (Inr (\<lambda>_. 0))
           = (Inr (HttpError errUserExists StatusBadRequest), s')"
    by blast
  have "s' = alice_server" using s'(1) fresh_server_signup by simp
  moreover from inst d
  have "snd (SignUpHandler counting_lib fresh_server (Inl ''EOF'') (Inr (\<lambda>_. 0))) = fresh_server"
    by blast
  ultimately show ?thesis using a b c d s' by blast
qed

subsection \<open>Unknown users\<close>

text \<open>
  C8. A phase-1 or phase-2 login request for a username that is not in the registry is
  answered with the client error "user doesn't exist" (status 400) and leaves the server
  as it is. When the user exists and the salted hash of the submitted secret differs
  from the stored one, phase 2 answers "invalid credentials" with status 403
  (forbidden): another status and another message.
\<close>

theorem unknown_user_not_found:
  "(userDatabase s (FirstLogInRequest_Username req1) = None \<longrightarrow>
      FirstLoginHandler lib be s (Inr req1) r =
        (Inr (HttpError errUserDoesNotExist StatusBadRequest), s)) \<and>
   (userDatabase s (SecondLogInRequest_Username req2) = None \<longrightarrow>
      SecondLoginHandler lib s (Inr req2) =
        (Inr (HttpError errUserDoesNotExist StatusBadRequest), s)) \<and>
   (userDatabase s (SecondLogInRequest_Username req2) = Some user \<longrightarrow>
      fnv64_Sum lib (User_Salt user @ SecondLogInRequest_Secret req2) = Inr secretHash \<longrightarrow>
      secretHash \<noteq> User_SecretHash user \<longrightarrow>
      SecondLoginHandler lib s (Inr req2) =
        (Inr (HttpError errInvalidCredentials StatusForbidden), s)) \<and>
   400 \<le> StatusBadRequest \<and> StatusBadRequest < 500 \<and>
   400 \<le> StatusForbidden \<and> StatusForbidden < 500 \<and>
   StatusBadRequest \<noteq> StatusForbidden \<and> errUserDoesNotExist \<noteq> errInvalidCredentials"
  by (auto simp: FirstLoginHandler_def SecondLoginHandler_def Let_def StatusBadRequest_def
        StatusForbidden_def errUserDoesNotExist_def errInvalidCredentials_def)

theorem unknown_user_not_found_witness:
  "userDatabase alice_server ''bob'' = None \<and>
   FirstLoginHandler counting_lib plain_key_backend alice_server
       (Inr \<lparr>FirstLogInRequest_Username = ''bob'',
             FirstLogInRequest_PublicKey = MakePublicKey sample_pk\<rparr>) 0
     = (Inr (HttpError errUserDoesNotExist StatusBadRequest), alice_server) \<and>
   SecondLoginHandler counting_lib alice_server
       (Inr \<lparr>SecondLogInRequest_Username = ''bob'', SecondLogInRequest_Secret = [0x12]\<rparr>)
     = (Inr (HttpError errUserDoesNotExist StatusBadRequest), alice_server) \<and>
   userDatabase alice_server ''alice'' = Some alice_user \<and>
   fnv64_Sum counting_lib (User_Salt alice_user @ [0x12, 0x34]) = Inr [4] \<and>
   [4] \<noteq> User_SecretHash alice_user \<and>
   SecondLoginHandler counting_lib alice_server
       (Inr \<lparr>SecondLogInRequest_Username = ''alice'', SecondLogInRequest_Secret = [0x12, 0x34]\<rparr>)
     = (Inr (HttpError errInvalidCredentials StatusForbidden), alice_server)"
  using unknown_user_not_found [of alice_server
          "\<lparr>FirstLogInRequest_Username = ''bob'',
             FirstLogInRequest_PublicKey = MakePublicKey sample_pk\<rparr>"
          counting_lib plain_key_backend 0
          "\<lparr>SecondLogInRequest_Username = ''bob'', SecondLogInRequest_Secret = [0x12]\<rparr>"]
        unknown_user_not_found [of alice_server
          "\<lparr>FirstLogInRequest_Username = ''bob'',
             FirstLogInRequest_PublicKey = MakePublicKey sample_pk\<rparr>"
          counting_lib plain_key_backend 0
          "\<lparr>SecondLogInRequest_Username = ''alice'', SecondLogInRequest_Secret = [0x12, 0x34]\<rparr>"
          alice_user "[4]"]
  by (simp add: fresh_server_def alice_server_def alice_user_def NewServer_def counting_lib_def)

subsection \<open>The public key on the wire\<close>

lemma from_make_lagrange [simp]: "from_lagrangeHalfCPolynomial (make_lagrangeHalfCPolynomial x) = x"
  by (simp add: from_lagrangeHalfCPolynomial_def make_lagrangeHalfCPolynomial_def)

lemma from_make_tLwe [simp]: "from_tLweSampleFFT (make_tLweSampleFFT w) = w"
  by (simp add: from_tLweSampleFFT_def make_tLweSampleFFT_def map_idI)

lemma from_make_tGsw [simp]: "from_tGswSampleFFT (make_tGswSampleFFT v) = v"
  by (simp add: from_tGswSampleFFT_def make_tGswSampleFFT_def map_idI)

lemma fromPublicKey_MakePublicKey:
  "fromPublicKey (MakePublicKey pk) =
     pk\<lparr>gates_Bkw := (gates_Bkw pk)\<lparr>LweBkw_BkFFT :=
        \<lparr>LweBkFFT_InOutParams = LweBk_InOutParams (LweBkw_Bk (gates_Bkw pk)),
         LweBkFFT_BkParams = LweBk_BkParams (LweBkw_Bk (gates_Bkw pk)),
         LweBkFFT_AccumParams = LweBk_AccumParams (LweBkw_Bk (gates_Bkw pk)),
         LweBkFFT_ExtractParams = LweBk_ExtractParams (LweBkw_Bk (gates_Bkw pk)),
         LweBkFFT_Bk = LweBkFFT_Bk (LweBkw_BkFFT (gates_Bkw pk)),
         LweBkFFT_Ks = LweBk_Ks (LweBkw_Bk (gates_Bkw pk))\<rparr>\<rparr>\<rparr>"
  by (simp add: fromPublicKey_def MakePublicKey_def Let_def map_idI)

text \<open>
  C9. In a key made by go-tfhe the FFT bootstrapping key is computed from the
  bootstrapping key beside it and repeats its four parameter fields and its
  key-switching key; this is \<open>bkFFT_agrees\<close>. \<open>MakePublicKey\<close> and \<open>fromPublicKey\<close> rely on
  it: both fill these five fields of \<^verbatim>\<open>BkFFT\<close> from \<^verbatim>\<open>pk.Bkw.Bk\<close>. For every such key
  \<open>fromPublicKey (MakePublicKey pk)\<close> is \<open>pk\<close>, every field of it. For every key whatever,
  the parameters, the bootstrapping key and the FFT samples with every polynomial
  coefficient come back unchanged, and the key that comes back satisfies \<open>bkFFT_agrees\<close>.
\<close>

theorem PublicKey_roundtrip:
  "(bkFFT_agrees pk \<longrightarrow> fromPublicKey (MakePublicKey pk) = pk) \<and>
   gates_Params (fromPublicKey (MakePublicKey pk)) = gates_Params pk \<and>
   LweBkw_Bk (gates_Bkw (fromPublicKey (MakePublicKey pk))) = LweBkw_Bk (gates_Bkw pk) \<and>
   LweBkFFT_Bk (LweBkw_BkFFT (gates_Bkw (fromPublicKey (MakePublicKey pk))))
     = LweBkFFT_Bk (LweBkw_BkFFT (gates_Bkw pk)) \<and>
   bkFFT_agrees (fromPublicKey (MakePublicKey pk))"
  by (cases pk) (auto simp add: fromPublicKey_MakePublicKey bkFFT_agrees_def)

theorem PublicKey_roundtrip_witness:
  "bkFFT_agrees sample_pk \<and> fromPublicKey (MakePublicKey sample_pk) = sample_pk"
  using PublicKey_roundtrip [of sample_pk]
  by (simp add: bkFFT_agrees_def sample_pk_def)

subsection \<open>The encrypted mutation\<close>

lemma mutation_step_Inr:
  assumes "0 < length us" "i < length rp" "i + length us div 2 < length rp"
  shows "mutation_step lib be packet (map Sample us) i (Inr (rp, rbs)) =
     (case stream_next lib (stream rbs) of (c, s) \<Rightarrow>
        Inr (rp[i := Sample (if c mod 2 = 0 then pk_Not be (Pub packet) (us ! 0) else us ! 0),
                i + length us div 2 :=
                  Sample (if c mod 2 = 0 then pk_Not be (Pub packet) (us ! 0) else us ! 0)],
             rbs\<lparr>stream := s\<rparr>))"
  using assms by (simp add: mutation_step_def NextByte_eq Let_def split: prod.splits)

lemma mutation_loop:
  assumes "length rp0 = length us"
  shows "m \<le> length us div 2 \<Longrightarrow>
    \<exists>rp. fold (mutation_step lib be packet (map Sample us)) [0..<m] (Inr (rp0, rbs))
            = Inr (rp, rbs\<lparr>stream := stream_skip lib (stream rbs) m\<rparr>)
       \<and> length rp = length us
       \<and> (\<forall>i < m. rp ! i = Sample (coin_unit lib be packet (stream rbs) i (us ! 0))
                 \<and> rp ! (i + length us div 2) = Sample (coin_unit lib be packet (stream rbs) i (us ! 0)))"
proof (induction m)
  case 0
  then show ?case using assms by simp
next
  case (Suc m)
  let ?h = "length us div 2"
  let ?e = "map Sample us"
  from Suc obtain rp where rp:
    "fold (mutation_step lib be packet ?e) [0..<m] (Inr (rp0, rbs))
            = Inr (rp, rbs\<lparr>stream := stream_skip lib (stream rbs) m\<rparr>)"
    "length rp = length us"
    "\<forall>i < m. rp ! i = Sample (coin_unit lib be packet (stream rbs) i (us ! 0))
                 \<and> rp ! (i + ?h) = Sample (coin_unit lib be packet (stream rbs) i (us ! 0))"
    by auto
  have mh: "m < ?h" using Suc.prems by simp
  then have pos: "0 < length us" and i1: "m < length rp" and i2: "m + ?h < length rp"
    using rp(2) by auto
  let ?v = "Sample (coin_unit lib be packet (stream rbs) m (us ! 0))"
  let ?rp' = "rp[m := ?v, m + ?h := ?v]"
  have step: "fold (mutation_step lib be packet ?e) [0..<Suc m] (Inr (rp0, rbs))
        = Inr (?rp', rbs\<lparr>stream := stream_skip lib (stream rbs) (Suc m)\<rparr>)"
    using rp(1) mutation_step_Inr [OF pos i1 i2, of lib be packet "rbs\<lparr>stream := stream_skip lib (stream rbs) m\<rparr>"]
    by (simp add: coin_unit_def coin_def split: prod.splits)
  show ?case
  proof (intro exI conjI allI impI)
    show "fold (mutation_step lib be packet ?e) [0..<Suc m] (Inr (rp0, rbs))
        = Inr (?rp', rbs\<lparr>stream := stream_skip lib (stream rbs) (Suc m)\<rparr>)" by (rule step)
    show "length ?rp' = length us" using rp(2) by simp
    fix i assume i: "i < Suc m"
    show "?rp' ! i = Sample (coin_unit lib be packet (stream rbs) i (us ! 0))"
    proof (cases "i = m")
      case True
      then show ?thesis using i1 i2 mh by (simp add: nth_list_update)
    next
      case False
      then have "i < m" using i by simp
      then show ?thesis using rp(3) mh by (simp add: nth_list_update)
    qed
    show "?rp' ! (i + ?h) = Sample (coin_unit lib be packet (stream rbs) i (us ! 0))"
    proof (cases "i = m")
      case True
      then show ?thesis using i1 i2 mh by (simp add: nth_list_update)
    next
      case False
      then have "i < m" using i by simp
      then show ?thesis using rp(3) mh by (simp add: nth_list_update)
    qed
  qed
qed

lemma makeEncryptedMutation_char:
  assumes "MakeRandByteStream lib r = Inr rbs"
  shows "\<exists>m. makeEncryptedMutation lib be r packet (map Sample us) = Inr m \<and> length m = length us \<and>
     (\<forall>i < length us div 2.
         m ! i = Sample (coin_unit lib be packet (stream rbs) i (us ! 0)) \<and>
         m ! (i + length us div 2) = Sample (coin_unit lib be packet (stream rbs) i (us ! 0)))"
proof -
  have "\<exists>rp. fold (mutation_step lib be packet (map Sample us)) [0..<length us div 2]
              (Inr (replicate (length us) NilSample, rbs))
            = Inr (rp, rbs\<lparr>stream := stream_skip lib (stream rbs) (length us div 2)\<rparr>)
       \<and> length rp = length us
       \<and> (\<forall>i < length us div 2.
             rp ! i = Sample (coin_unit lib be packet (stream rbs) i (us ! 0))
             \<and> rp ! (i + length us div 2) = Sample (coin_unit lib be packet (stream rbs) i (us ! 0)))"
    by (rule mutation_loop) simp_all
  then show ?thesis using assms by (auto simp: makeEncryptedMutation_def)
qed

text \<open>For an even length every position is written, so the mutation has no nil unit.\<close>

lemma makeEncryptedMutation_even:
  assumes "MakeRandByteStream lib r = Inr rbs" and "length us = 2 * n"
  shows "\<exists>ms. makeEncryptedMutation lib be r packet (map Sample us) = Inr (map Sample ms) \<and>
           length ms = 2 * n \<and>
           (\<forall>i < n. ms ! i = coin_unit lib be packet (stream rbs) i (us ! 0) \<and>
                     ms ! (i + n) = coin_unit lib be packet (stream rbs) i (us ! 0))"
proof -
  have h: "length us div 2 = n" using assms(2) by simp
  from makeEncryptedMutation_char [OF assms(1), of be packet us]
  obtain m where m0: "makeEncryptedMutation lib be r packet (map Sample us) = Inr m"
    "length m = length us"
    "\<forall>i < length us div 2.
        m ! i = Sample (coin_unit lib be packet (stream rbs) i (us ! 0)) \<and>
        m ! (i + length us div 2) = Sample (coin_unit lib be packet (stream rbs) i (us ! 0))"
    by blast
  have m: "makeEncryptedMutation lib be r packet (map Sample us) = Inr m"
    "length m = 2 * n"
    "\<forall>i < n. m ! i = Sample (coin_unit lib be packet (stream rbs) i (us ! 0)) \<and>
              m ! (i + n) = Sample (coin_unit lib be packet (stream rbs) i (us ! 0))"
    using m0 unfolding h by (simp_all add: assms(2))
  define ms where "ms = map (\<lambda>q. coin_unit lib be packet (stream rbs) (if q < n then q else q - n) (us ! 0))
                          [0..<2 * n]"
  have lms: "length ms = 2 * n" by (simp add: ms_def)
  have lo: "ms ! i = coin_unit lib be packet (stream rbs) i (us ! 0)" if "i < n" for i
    using that by (simp add: ms_def)
  have hi: "ms ! (i + n) = coin_unit lib be packet (stream rbs) i (us ! 0)" if "i < n" for i
    using that by (simp add: ms_def)
  have "m = map Sample ms"
  proof (rule nth_equalityI)
    show "length m = length (map Sample ms)" using m(2) lms by simp
  next
    fix q assume "q < length m"
    then have q: "q < 2 * n" using m(2) by simp
    show "m ! q = map Sample ms ! q"
    proof (cases "q < n")
      case True
      then have "m ! q = Sample (ms ! q)" using m(3) lo by simp
      moreover have "q < length ms" using q lms by simp
      ultimately show ?thesis by simp
    next
      case False
      define i where "i = q - n"
      have i: "q = i + n" "i < n" using False q by (simp_all add: i_def)
      have "m ! (i + n) = Sample (ms ! (i + n))" using m(3) hi i(2) by simp
      moreover have "i + n < length ms" using i(2) lms by simp
      ultimately show ?thesis unfolding i(1) by simp
    qed
  qed
  then have mk: "makeEncryptedMutation lib be r packet (map Sample us) = Inr (map Sample ms)"
    using m(1) by simp
  show ?thesis
  proof (rule exI [of _ ms], intro conjI allI impI)
    show "makeEncryptedMutation lib be r packet (map Sample us) = Inr (map Sample ms)" by (rule mk)
    show "length ms = 2 * n" by (rule lms)
    fix i assume "i < n"
    then show "ms ! i = coin_unit lib be packet (stream rbs) i (us ! 0)"
      and "ms ! (i + n) = coin_unit lib be packet (stream rbs) i (us ! 0)"
      by (rule lo, rule hi)
  qed
qed

lemma counting_stream: "MakeRandByteStream counting_lib 0 = Inr \<lparr>stream = 9\<rparr>"
  by code_simp

lemma mutation_example:
  "makeEncryptedMutation counting_lib plain_backend 0 plain_packet
     [Sample True, Sample True, Sample True, Sample True]
   = Inr [Sample True, Sample False, Sample True, Sample False]"
  by code_simp




subsection \<open>Login recovers the secret\<close>

lemma xorBytes_Inr:
  "length a = length b \<Longrightarrow> xorBytes a b = Inr (map (\<lambda>i. (a ! i) XOR (b ! i)) [0..<length a])"
  by (simp add: xorBytes_def)

lemma Xor_samples:
  assumes "length us = length vs"
  shows "Xor be p (map Sample us) (map Sample vs) =
           Inr (map Sample (map (\<lambda>i. pk_Xor be (pub p) (us ! i) (vs ! i)) [0..<length us]))"
  unfolding Xor_def ParallelBinary_samples [OF assms] by (simp add: comp_def)

lemma FirstLoginHandler_known_user:
  assumes "userDatabase s (FirstLogInRequest_Username req1) = Some user"
    and "makeEncryptedMutation lib be r (MakePublicPacket (FirstLogInRequest_PublicKey req1))
            (User_EncryptedSecret user) = Inr m"
    and "Xor be (MakePublicPacket (FirstLogInRequest_PublicKey req1)) m (User_EncryptedSecret user) = Inr x"
  shows "FirstLoginHandler lib be s (Inr req1) r
           = (Inr (WriteHeader StatusOK \<lparr>EncryptedMutatedSecret = x\<rparr>), s)"
  using assms by (simp add: FirstLoginHandler_def)

text \<open>
  C1. Let the client hold a packet with a private key, \<open>secret\<close> and \<open>noise\<close> have length
  \<open>n\<close> and the client's message length be \<open>n\<close>. Assume that decrypting the encryption of
  the bit 0 gives 0 and of the bit 1 gives 1, and that the bit decrypted from the
  server's \<open>Xor\<close> of two units is the exclusive or of the bits decrypted from them. Then
  for every seed of the server's coins, once its random stream is made: the sign-up
  request encrypts \<open>noise @ (noise XOR secret)\<close>, the server's mutation \<open>m\<close> of the stored
  ciphertext and the homomorphic \<open>Xor\<close> of \<open>m\<close> with it succeed, and from that answer the
  client's second request carries exactly \<open>secret\<close>. (\<open>FirstLoginHandler_known_user\<close>:
  that \<open>Xor\<close> is the body of the server's answer.)
\<close>

theorem login_recovers_secret:
  assumes key: "prv packet = Some key"
    and ln: "length noise = n" and ls: "length secret = n"
    and mb: "messageByteLen c = int n"
    and d0: "BootsSymDecrypt be key (BootsSymEncrypt be key 0) = 0"
    and d1: "BootsSymDecrypt be key (BootsSymEncrypt be key 1) = 1"
    and xor: "\<forall>a b. decrypted_bit be key (pk_Xor be (pub sp) a b)
                       \<longleftrightarrow> decrypted_bit be key a \<noteq> decrypted_bit be key b"
    and rbs: "MakeRandByteStream lib r = Inr rbs"
  shows "\<exists>req m x.
           buildSignUpRequest be packet username noise secret = Inr req \<and>
           SignUpRequest_Secret req = secret \<and>
           makeEncryptedMutation lib be r sp (SignUpRequest_EncryptedSecret req) = Inr m \<and>
           Xor be sp m (SignUpRequest_EncryptedSecret req) = Inr x \<and>
           LogIn_secondRequest be c packet username \<lparr>EncryptedMutatedSecret = x\<rparr>
             = Inr \<lparr>SecondLogInRequest_Username = username, SecondLogInRequest_Secret = secret\<rparr>"
proof -
  let ?dec = "BootsSymDecrypt be key"
  define xs where "xs = map (\<lambda>i. (noise ! i) XOR (secret ! i)) [0..<n]"
  define payload where "payload = noise @ xs"
  have xb: "xorBytes noise secret = Inr xs" using ln ls by (simp add: xorBytes_Inr xs_def)
  have lp: "length payload = 2 * n" using ln by (simp add: payload_def xs_def)
  from Encrypt_samples [OF key, of be payload]
  obtain cs where ct: "Encrypt be packet payload = Inr (map Sample cs)"
    "length cs = 8 * length payload"
    "\<forall>q < 8 * length payload. cs ! q =
        BootsSymEncrypt be key (of_bool (bit (payload ! (q div 8)) (q mod 8)))"
    by blast
  define req where "req = \<lparr>SignUpRequest_Username = username,
                       SignUpRequest_EncryptedSecret = map Sample cs, SignUpRequest_Secret = secret\<rparr>"
  have breq: "buildSignUpRequest be packet username noise secret = Inr req"
    using xb ct(1) by (simp add: buildSignUpRequest_def payload_def req_def)
  have lct: "length cs = 2 * (8 * n)" using ct(2) lp by simp
  from makeEncryptedMutation_even [OF rbs lct, of be sp]
  obtain ms where m0: "makeEncryptedMutation lib be r sp (map Sample cs) = Inr (map Sample ms)"
    "length ms = 2 * (8 * n)"
    "\<forall>i < 8 * n. ms ! i = coin_unit lib be sp (stream rbs) i (cs ! 0) \<and>
                  ms ! (i + 8 * n) = coin_unit lib be sp (stream rbs) i (cs ! 0)"
    by blast
  have m3: "\<forall>i < 8 * n. ms ! i = ms ! (i + 8 * n)" using m0(3) by simp
  have lmc: "length ms = length cs" using m0(2) lct by simp
  define x where "x = map (\<lambda>i. pk_Xor be (pub sp) (ms ! i) (cs ! i)) [0..<length ms]"
  have xx: "Xor be sp (map Sample ms) (map Sample cs) = Inr (map Sample x)"
    unfolding x_def by (rule Xor_samples [OF lmc])
  have x3: "x ! i = pk_Xor be (pub sp) (ms ! i) (cs ! i)" if "i < length ms" for i
    using that by (simp add: x_def)
  have lx: "length x = 8 * (2 * n)" using m0(2) by (simp add: x_def)
  define d where "d = decrypt_bytes ?dec x"
  have dx: "Decrypt be packet (map Sample x) = Inr d" using Decrypt_eq [OF key] by (simp add: d_def)
  have ld: "length d = 2 * n" using lx by (simp add: d_def length_decrypt_bytes_full)
  have ctbit: "decrypted_bit be key (cs ! (8 * i + t)) = bit (payload ! i) t"
    if "i < 2 * n" "t < 8" for i t
  proof -
    have "8 * i + t < 8 * length payload" using that lp by simp
    moreover have "(8 * i + t) div 8 = i" "(8 * i + t) mod 8 = t" using that(2) by simp_all
    ultimately have "cs ! (8 * i + t) = BootsSymEncrypt be key (of_bool (bit (payload ! i) t))"
      using ct(3) by simp
    then show ?thesis using d0 d1 by (cases "bit (payload ! i) t") (simp_all add: decrypted_bit_def)
  qed
  have dbit: "bit (d ! i) t \<longleftrightarrow> decrypted_bit be key (ms ! (8 * i + t)) \<noteq> bit (payload ! i) t"
    if "i < 2 * n" "t < 8" for i t
  proof -
    have q: "8 * i + t < length ms" using that m0(2) by simp
    have "bit (d ! i) t = odd (?dec (x ! (8 * i + t)))"
      unfolding d_def using lx that by (rule decrypt_bytes_full_bit)
    also have "\<dots> = decrypted_bit be key (pk_Xor be (pub sp) (ms ! (8 * i + t)) (cs ! (8 * i + t)))"
      using x3 [OF q] by (simp add: decrypted_bit_def)
    also have "\<dots> = (decrypted_bit be key (ms ! (8 * i + t)) \<noteq> decrypted_bit be key (cs ! (8 * i + t)))"
      using xor by simp
    finally show ?thesis using ctbit [OF that] by simp
  qed
  have rec: "map (\<lambda>i. (take n d ! i) XOR (drop n d ! i)) [0..<n] = secret"
  proof (rule nth_equalityI)
    show "length (map (\<lambda>i. (take n d ! i) XOR (drop n d ! i)) [0..<n]) = length secret"
      using ls by simp
  next
    fix i assume "i < length (map (\<lambda>i. (take n d ! i) XOR (drop n d ! i)) [0..<n])"
    then have i: "i < n" by simp
    have e1: "take n d ! i = d ! i" using i by simp
    have e2: "drop n d ! i = d ! (n + i)" using i ld by simp
    have "(d ! i) XOR (d ! (n + i)) = secret ! i"
    proof (rule bit_word_eqI)
      fix t assume "t < LENGTH(8)"
      then have t: "t < 8" by simp
      have p1: "payload ! i = noise ! i" using i ln by (simp add: payload_def nth_append)
      have p2: "payload ! (n + i) = (noise ! i) XOR (secret ! i)"
        using i ln by (simp add: payload_def nth_append xs_def)
      have mm: "ms ! (8 * (n + i) + t) = ms ! (8 * i + t)"
      proof -
        have "8 * i + t < 8 * n" using i t by simp
        then have "ms ! (8 * i + t) = ms ! (8 * i + t + 8 * n)" using m3 by simp
        moreover have "8 * i + t + 8 * n = 8 * (n + i) + t" by simp
        ultimately show ?thesis by simp
      qed
      have b1: "bit (d ! i) t \<longleftrightarrow> decrypted_bit be key (ms ! (8 * i + t)) \<noteq> bit (noise ! i) t"
        using dbit [of i t] i t p1 by simp
      have b2: "bit (d ! (n + i)) t \<longleftrightarrow>
                 decrypted_bit be key (ms ! (8 * i + t)) \<noteq> bit ((noise ! i) XOR (secret ! i)) t"
        using dbit [of "n + i" t] i t p2 mm by simp
      show "bit ((d ! i) XOR (d ! (n + i))) t = bit (secret ! i) t"
        using b1 b2 by (auto simp: bit_xor_iff)
    qed
    then show "map (\<lambda>i. (take n d ! i) XOR (drop n d ! i)) [0..<n] ! i = secret ! i"
      using i e1 e2 by simp
  qed
  have xb2: "xorBytes (take n d) (drop n d) = Inr secret"
    using ld rec by (simp add: xorBytes_def)
  have l2: "LogIn_secondRequest be c packet username \<lparr>EncryptedMutatedSecret = map Sample x\<rparr>
             = Inr \<lparr>SecondLogInRequest_Username = username, SecondLogInRequest_Secret = secret\<rparr>"
    using dx mb ld xb2 by (simp add: LogIn_secondRequest_def)
  have r1: "SignUpRequest_Secret req = secret" and r2: "SignUpRequest_EncryptedSecret req = map Sample cs"
    by (simp_all add: req_def)
  show ?thesis
  proof (intro exI conjI)
    show "buildSignUpRequest be packet username noise secret = Inr req" by (rule breq)
    show "SignUpRequest_Secret req = secret" by (rule r1)
    show "makeEncryptedMutation lib be r sp (SignUpRequest_EncryptedSecret req) = Inr (map Sample ms)"
      unfolding r2 by (rule m0(1))
    show "Xor be sp (map Sample ms) (SignUpRequest_EncryptedSecret req) = Inr (map Sample x)"
      unfolding r2 by (rule xx)
    show "LogIn_secondRequest be c packet username \<lparr>EncryptedMutatedSecret = map Sample x\<rparr>
             = Inr \<lparr>SecondLogInRequest_Username = username, SecondLogInRequest_Secret = secret\<rparr>"
      by (rule l2)
  qed
qed

lemma plain_xor:
  "decrypted_bit plain_backend () (pk_Xor plain_backend k a b)
     \<longleftrightarrow> decrypted_bit plain_backend () a \<noteq> decrypted_bit plain_backend () b"
  by (simp add: decrypted_bit_def)

theorem login_recovers_secret_witness:
  "prv plain_packet = Some () \<and> length [0x0F :: byte] = 1 \<and> length [0x12 :: byte] = 1 \<and>
   messageByteLen (NewClient 1 8080) = int 1 \<and>
   MakeRandByteStream counting_lib 0 = Inr \<lparr>stream = 9\<rparr> \<and>
   (\<exists>req m x.
      buildSignUpRequest plain_backend plain_packet ''alice'' [0x0F] [0x12] = Inr req \<and>
      makeEncryptedMutation counting_lib plain_backend 0 plain_packet
        (SignUpRequest_EncryptedSecret req) = Inr m \<and>
      Xor plain_backend plain_packet m (SignUpRequest_EncryptedSecret req) = Inr x \<and>
      LogIn_secondRequest plain_backend (NewClient 1 8080) plain_packet ''alice''
          \<lparr>EncryptedMutatedSecret = x\<rparr>
        = Inr \<lparr>SecondLogInRequest_Username = ''alice'', SecondLogInRequest_Secret = [0x12]\<rparr>)"
proof -
  have a: "prv plain_packet = Some ()" by simp
  have b: "length [0x0F :: byte] = 1" "length [0x12 :: byte] = 1" by simp_all
  have c: "messageByteLen (NewClient 1 8080) = int 1" by (simp add: NewClient_def)
  have d: "BootsSymDecrypt plain_backend () (BootsSymEncrypt plain_backend () 0) = 0"
          "BootsSymDecrypt plain_backend () (BootsSymEncrypt plain_backend () 1) = 1"
    by simp_all
  have e: "\<forall>a b. decrypted_bit plain_backend () (pk_Xor plain_backend (pub plain_packet) a b)
                       \<longleftrightarrow> decrypted_bit plain_backend () a \<noteq> decrypted_bit plain_backend () b"
    by (simp only: plain_xor) simp
  from login_recovers_secret [OF a b c d e counting_stream, of "''alice''"]
  show ?thesis using a b c counting_stream by blast
qed


end
